theory Spec2Isabelle
  imports Main "HOL-Library.Word"
begin

unbundle bit_operations_syntax

section \<open>Bytes, errors\<close>

text \<open>
  A Python \<^verbatim>\<open>bytes\<close> object is a list of 8-bit values; iterating over it yields
  the elements as unbounded integers in the range 0..255 (\<open>uint\<close> of the element).
  All other integers of the script are Python's unbounded \<^verbatim>\<open>int\<close>.
\<close>

type_synonym byte = "8 word"
type_synonym bytes = "byte list"

text \<open>
  The exceptions the script can raise, one constructor per raise site or per builtin
  that can fail:
  \<^item> \<open>OverflowError\<close>: \<^verbatim>\<open>int.to_bytes()\<close> on a value outside 0..255;
  \<^item> \<open>AssertionError\<close>: \<^verbatim>\<open>assert current_len <= 1024\<close> in \<^verbatim>\<open>_pad_data\<close>;
  \<^item> \<open>StructError\<close>: \<^verbatim>\<open>struct.pack(">LLL", ...)\<close> on a value outside 0..2^32-1;
  \<^item> \<open>SerialException\<close>: an I/O fault raised by the serial port;
  \<^item> \<open>OSError_NoPing\<close>: \<^verbatim>\<open>OSError("Didn't receive expected 'C' ping. ...")\<close>;
  \<^item> \<open>OSError_NoAck\<close>: \<^verbatim>\<open>OSError("Didn't receive expected ACK. Stopping transmission")\<close>;
  \<^item> \<open>OSError_NoEotAck\<close>: \<^verbatim>\<open>OSError("No ACK received for EOT message")\<close>;
  \<^item> \<open>OSError_EmptyFile\<close>:
    \<^verbatim>\<open>OSError("Some error occurred while reading the data from the file")\<close>.
\<close>

datatype error =
    OverflowError
  | AssertionError
  | StructError
  | SerialException
  | OSError_NoPing
  | OSError_NoAck
  | OSError_NoEotAck
  | OSError_EmptyFile

text \<open>The XMODEM1k marker bytes, each a \<^verbatim>\<open>bytes\<close> object of length one.\<close>

definition SOH :: bytes where "SOH = [0x01]"
definition STX :: bytes where "STX = [0x02]"
definition EOT :: bytes where "EOT = [0x04]"
definition ACK :: bytes where "ACK = [0x06]"
definition NAK :: bytes where "NAK = [0x15]"
definition CAN :: bytes where "CAN = [0x18]"
definition PING :: bytes where "PING = [0x43]"

text \<open>Header bits: \<^verbatim>\<open>NO_VERIFICATION = 1 << 0\<close>.\<close>

definition NO_VERIFICATION :: int where
  "NO_VERIFICATION = push_bit 0 1"

text \<open>
  \<^verbatim>\<open>int.to_bytes()\<close> with its defaults (length 1, big-endian, unsigned): the one byte
  of a value in 0..255, \<^verbatim>\<open>OverflowError\<close> for every other value.
\<close>

definition to_bytes :: "int \<Rightarrow> error + bytes" where
  "to_bytes x = (if 0 \<le> x \<and> x \<le> 255 then Inr [word_of_int x] else Inl OverflowError)"

section \<open>TransferDataCreator\<close>

record TransferDataCreator =
  polynomial :: int
  data :: bytes
  header :: "bytes option"

text \<open>\<^verbatim>\<open>__init__(self, data, polynomial=0x1021)\<close>.\<close>

definition TransferDataCreator_init :: "bytes \<Rightarrow> int \<Rightarrow> TransferDataCreator" where
  "TransferDataCreator_init d p = \<lparr>polynomial = p, data = d, header = None\<rparr>"

subsection \<open>Checksum\<close>

text \<open>
  One round of the loop body of \<^verbatim>\<open>_calc_crc16_single_byte\<close>:
  \<^verbatim>\<open>
  if combined & 0x800000 != 0:
      combined = (combined << 1) ^ (self._polynomial << 8)
  else:
      combined <<= 1
  combined &= 0xFFFFFF
  \<close>
\<close>

definition crc_round :: "int \<Rightarrow> int \<Rightarrow> int" where
  "crc_round poly combined =
     (if combined AND 0x800000 \<noteq> 0
      then push_bit 1 combined XOR push_bit 8 poly
      else push_bit 1 combined) AND 0xFFFFFF"

text \<open>\<^verbatim>\<open>for _ in range(0, n)\<close> around that body.\<close>

fun crc_rounds :: "nat \<Rightarrow> int \<Rightarrow> int \<Rightarrow> int" where
  "crc_rounds 0 poly combined = combined"
| "crc_rounds (Suc n) poly combined = crc_rounds n poly (crc_round poly combined)"

definition calc_crc16_single_byte :: "TransferDataCreator \<Rightarrow> int \<Rightarrow> int \<Rightarrow> int" where
  "calc_crc16_single_byte self byte crc =
     (let combined = crc XOR push_bit 8 byte;
          combined = crc_rounds 16 (polynomial self) combined
      in drop_bit 8 combined AND 0xFFFF)"

text \<open>
  \<^verbatim>\<open>calc_crc16(self, data, initial_crc=0x0)\<close>: the loop over the bytes, the running
  checksum as the accumulator.
\<close>

fun calc_crc16 :: "TransferDataCreator \<Rightarrow> bytes \<Rightarrow> int \<Rightarrow> int" where
  "calc_crc16 self [] crc = crc"
| "calc_crc16 self (byte # rest) crc =
     calc_crc16 self rest (calc_crc16_single_byte self (uint byte) crc)"

subsection \<open>The classic CRC-16 (CCITT/XMODEM), as the specification words it\<close>

text \<open>
  A 16-bit register; each byte is XORed into the high byte of the register, then eight
  rounds shift the register left by one and XOR the polynomial in when the bit shifted
  out was set.
\<close>

definition classic_round :: "16 word \<Rightarrow> 16 word \<Rightarrow> 16 word" where
  "classic_round poly reg =
     (if bit reg 15 then push_bit 1 reg XOR poly else push_bit 1 reg)"

definition classic_byte :: "16 word \<Rightarrow> byte \<Rightarrow> 16 word \<Rightarrow> 16 word" where
  "classic_byte poly b reg =
     (classic_round poly ^^ 8) (reg XOR push_bit 8 (ucast b))"

fun classic_crc16 :: "16 word \<Rightarrow> bytes \<Rightarrow> 16 word \<Rightarrow> 16 word" where
  "classic_crc16 poly [] reg = reg"
| "classic_crc16 poly (b # bs) reg = classic_crc16 poly bs (classic_byte poly b reg)"

subsection \<open>Frame construction\<close>

text \<open>\<^verbatim>\<open>for _ in range(n): ret += b'\x00'\<close>.\<close>

fun pad_zeros :: "nat \<Rightarrow> bytes \<Rightarrow> bytes" where
  "pad_zeros 0 ret = ret"
| "pad_zeros (Suc n) ret = pad_zeros n (ret @ [0x00])"

text \<open>
  \<^verbatim>\<open>_pad_data\<close>: the assertion on the length, then padding to 128 bytes for a content of
  at most 128 bytes and to 1024 bytes otherwise.
\<close>

definition pad_data :: "bytes \<Rightarrow> error + bytes" where
  "pad_data d =
     (let ret = d; current_len = length d
      in if \<not> current_len \<le> 1024 then Inl AssertionError
         else if current_len \<le> 128 then Inr (pad_zeros (128 - current_len) ret)
         else Inr (pad_zeros (1024 - current_len) ret))"

text \<open>
  \<^verbatim>\<open>_construct_single_chunk\<close>. The statements run in the source's order, so a block
  number outside 0..255 raises in \<^verbatim>\<open>to_bytes\<close> before the length assertion of
  \<^verbatim>\<open>_pad_data\<close> is reached.
\<close>

definition construct_single_chunk :: "TransferDataCreator \<Rightarrow> bytes \<Rightarrow> int \<Rightarrow> error + bytes" where
  "construct_single_chunk self d block_num =
     (let chunk = [];
          chunk = (if length d > 128 then chunk @ STX else chunk @ SOH)
      in case to_bytes block_num of Inl e \<Rightarrow> Inl e | Inr b1 \<Rightarrow>
         (let chunk = chunk @ b1
          in case to_bytes (0xFF - block_num) of Inl e \<Rightarrow> Inl e | Inr b2 \<Rightarrow>
             (let chunk = chunk @ b2
              in case pad_data d of Inl e \<Rightarrow> Inl e | Inr padded \<Rightarrow>
                 (let chunk = chunk @ padded;
                      crc = calc_crc16 self padded 0x0
                  in case to_bytes (drop_bit 8 crc AND 0xFF) of Inl e \<Rightarrow> Inl e | Inr hi \<Rightarrow>
                     (let chunk = chunk @ hi
                      in case to_bytes (crc AND 0xFF) of Inl e \<Rightarrow> Inl e | Inr lo \<Rightarrow>
                         Inr (chunk @ lo))))))"

subsection \<open>The flash header\<close>

text \<open>
  \<^verbatim>\<open>struct.pack(">LLL", a, b, c)\<close>: three unsigned 32-bit fields, big-endian, no padding;
  \<^verbatim>\<open>struct.error\<close> when a value does not fit its field.
\<close>

definition pack_L :: "int \<Rightarrow> error + bytes" where
  "pack_L x =
     (if 0 \<le> x \<and> x \<le> 0xFFFFFFFF
      then Inr [word_of_int (drop_bit 24 x), word_of_int (drop_bit 16 x),
                word_of_int (drop_bit 8 x), word_of_int x]
      else Inl StructError)"

definition struct_pack_LLL :: "int \<Rightarrow> int \<Rightarrow> int \<Rightarrow> error + bytes" where
  "struct_pack_LLL a b c =
     (case pack_L a of Inl e \<Rightarrow> Inl e | Inr x \<Rightarrow>
      (case pack_L b of Inl e \<Rightarrow> Inl e | Inr y \<Rightarrow>
       (case pack_L c of Inl e \<Rightarrow> Inl e | Inr z \<Rightarrow> Inr (x @ y @ z))))"

definition add_header :: "TransferDataCreator \<Rightarrow> int \<Rightarrow> int \<Rightarrow> int \<Rightarrow> error + TransferDataCreator" where
  "add_header self flash_offset flash_size flags =
     (case struct_pack_LLL flash_offset flash_size flags of
        Inl e \<Rightarrow> Inl e
      | Inr h \<Rightarrow> Inr (self\<lparr>header := Some h\<rparr>))"

text \<open>Reading a big-endian field back, for stating what a header holds.\<close>

definition unpack_be :: "bytes \<Rightarrow> int" where
  "unpack_be bs = foldl (\<lambda>acc b. acc * 256 + uint b) 0 bs"

subsection \<open>Planning the chunks\<close>

text \<open>
  The first loop of \<^verbatim>\<open>get_transfer_chunks\<close>, over the bytes of the payload; the
  accumulators are \<^verbatim>\<open>data_parts\<close>, \<^verbatim>\<open>current_data\<close> and
  \<^verbatim>\<open>current_number_of_bytes\<close>.
\<close>

fun split_data :: "bytes \<Rightarrow> bytes list \<Rightarrow> bytes \<Rightarrow> nat \<Rightarrow> error + (bytes list \<times> bytes \<times> nat)" where
  "split_data [] data_parts current_data current_number_of_bytes =
     Inr (data_parts, current_data, current_number_of_bytes)"
| "split_data (byte # rest) data_parts current_data current_number_of_bytes =
     (case to_bytes (uint byte) of Inl e \<Rightarrow> Inl e | Inr b \<Rightarrow>
      (let current_data = current_data @ b;
           current_number_of_bytes = current_number_of_bytes + 1
       in if current_number_of_bytes = 1024
          then split_data rest (data_parts @ [current_data]) [] 0
          else split_data rest data_parts current_data current_number_of_bytes))"

text \<open>
  The second loop, over the parts; the accumulators are \<^verbatim>\<open>block_num\<close> and
  \<^verbatim>\<open>chunks\<close>.
\<close>

fun build_chunks :: "TransferDataCreator \<Rightarrow> bytes list \<Rightarrow> int \<Rightarrow> bytes list \<Rightarrow> error + bytes list" where
  "build_chunks self [] block_num chunks = Inr chunks"
| "build_chunks self (part # rest) block_num chunks =
     (case construct_single_chunk self part block_num of Inl e \<Rightarrow> Inl e | Inr c \<Rightarrow>
      (let chunks = chunks @ [c];
           block_num = block_num + 1;
           block_num = (if block_num > 0xFF then 0x0 else block_num)
       in build_chunks self rest block_num chunks))"

definition get_transfer_chunks :: "TransferDataCreator \<Rightarrow> error + bytes list" where
  "get_transfer_chunks self =
     (case split_data (data self) [] [] 0 of Inl e \<Rightarrow> Inl e
      | Inr (data_parts, current_data, current_number_of_bytes) \<Rightarrow>
        (let data_parts = (if current_number_of_bytes \<noteq> 0
                           then data_parts @ [current_data] else data_parts);
             chunks = [];
             block_num = 0x1
         in case (case header self of
                    None \<Rightarrow> Inr (chunks, block_num)
                  | Some h \<Rightarrow>
                      (case construct_single_chunk self h block_num of
                         Inl e \<Rightarrow> Inl e
                       | Inr c \<Rightarrow> Inr (chunks @ [c], block_num + 1)))
            of Inl e \<Rightarrow> Inl e
             | Inr (chunks, block_num) \<Rightarrow> build_chunks self data_parts block_num chunks))"

section \<open>The serial port and the console\<close>

text \<open>
  The serial port is the environment of the session. It is modelled as a script: what
  \<^verbatim>\<open>serial.Serial(...)\<close> does, and what the successive calls of \<^verbatim>\<open>uart.read()\<close>,
  \<^verbatim>\<open>uart.read_all()\<close> and \<^verbatim>\<open>uart.write(...)\<close> return, each of which may
  instead raise an I/O fault. When a script is used up the port is silent:
  \<^verbatim>\<open>read()\<close> times out and returns \<^verbatim>\<open>b''\<close>, \<^verbatim>\<open>read_all()\<close> returns
  \<^verbatim>\<open>b''\<close>, a write succeeds. A theorem about every script is a theorem about every
  receiver. \<^verbatim>\<open>time.sleep(3)\<close> has no counterpart here.

  The trace records, in order, every call the session makes on the port and every line
  it prints. \<open>PrintSending index total\<close> is the progress line
  \<^verbatim>\<open>Sending chunk {index} / {total} (~ ...%)\<close>, whose percentage is a function of
  the two numbers. \<^verbatim>\<open>upload_data\<close> makes no other call on the port.
\<close>

datatype 'a reply = Fault | Ret 'a

datatype event =
    Open
  | Write bytes
  | Read
  | ReadAll
  | PrintWarning
  | PrintSending nat nat
  | PrintResponse bytes
  | PrintFinished

record world =
  open_result :: "unit reply"
  read_results :: "bytes reply list"
  read_all_results :: "bytes option reply list"
  write_results :: "unit reply list"
  trace :: "event list"

definition print :: "event \<Rightarrow> world \<Rightarrow> world" where
  "print e w = w\<lparr>trace := trace w @ [e]\<rparr>"

definition next_read :: "world \<Rightarrow> bytes reply" where
  "next_read w = (case read_results w of [] \<Rightarrow> Ret [] | r # _ \<Rightarrow> r)"

definition next_read_all :: "world \<Rightarrow> bytes option reply" where
  "next_read_all w = (case read_all_results w of [] \<Rightarrow> Ret (Some []) | r # _ \<Rightarrow> r)"

definition next_write :: "world \<Rightarrow> unit reply" where
  "next_write w = (case write_results w of [] \<Rightarrow> Ret () | r # _ \<Rightarrow> r)"

definition serial_Serial :: "world \<Rightarrow> unit reply \<times> world" where
  "serial_Serial w = (open_result w, w\<lparr>trace := trace w @ [Open]\<rparr>)"

definition uart_read :: "world \<Rightarrow> bytes reply \<times> world" where
  "uart_read w =
     (next_read w, w\<lparr>read_results := tl (read_results w), trace := trace w @ [Read]\<rparr>)"

definition uart_read_all :: "world \<Rightarrow> bytes option reply \<times> world" where
  "uart_read_all w =
     (next_read_all w,
      w\<lparr>read_all_results := tl (read_all_results w), trace := trace w @ [ReadAll]\<rparr>)"

definition uart_write :: "bytes \<Rightarrow> world \<Rightarrow> unit reply \<times> world" where
  "uart_write bs w =
     (next_write w, w\<lparr>write_results := tl (write_results w), trace := trace w @ [Write bs]\<rparr>)"

section \<open>FirmwareUploader\<close>

text \<open>\<^verbatim>\<open>read_response.endswith(PING)\<close> on \<^verbatim>\<open>bytes\<close>.\<close>

definition endswith :: "bytes \<Rightarrow> bytes \<Rightarrow> bool" where
  "endswith s suffix =
     (length suffix \<le> length s \<and> drop (length s - length suffix) s = suffix)"

text \<open>
  \<^verbatim>\<open>upload_data\<close>, in the three parts the source has after opening the port: the
  wait for the ping (lines 174 to 181), the loop over the chunks (lines 183 to 198)
  with \<^verbatim>\<open>index\<close> as its accumulator (\<open>empty_rest\<close> is the source's
  \<^verbatim>\<open>empty\<close>) and \<^verbatim>\<open>len(self._chunks)\<close> as \<open>num_chunks\<close>,
  and the end of transmission (lines 200 to 204). Each returns the exception raised, if
  any, and the world it leaves.
\<close>

definition upload_ping :: "world \<Rightarrow> (error + unit) \<times> world" where
  "upload_ping w =
     (case uart_read_all w of
        (Fault, w) \<Rightarrow> (Inl SerialException, w)
      | (Ret read_response, w) \<Rightarrow>
          (case (case read_response of
                   None \<Rightarrow> uart_read w
                 | Some r \<Rightarrow> (Ret r, w)) of
             (Fault, w) \<Rightarrow> (Inl SerialException, w)
           | (Ret read_response, w) \<Rightarrow>
               if length read_response = 0 \<or> \<not> endswith read_response PING
               then (Inl OSError_NoPing, w)
               else (Inr (), w)))"

fun upload_chunks :: "bytes list \<Rightarrow> nat \<Rightarrow> nat \<Rightarrow> world \<Rightarrow> (error + unit) \<times> world" where
  "upload_chunks [] index num_chunks w = (Inr (), w)"
| "upload_chunks (chunk # rest) index num_chunks w =
     (let w = print (PrintSending index num_chunks) w
      in case uart_write chunk w of
           (Fault, w) \<Rightarrow> (Inl SerialException, w)
         | (Ret _, w) \<Rightarrow>
             (case uart_read w of
                (Fault, w) \<Rightarrow> (Inl SerialException, w)
              | (Ret response, w) \<Rightarrow>
                  (case uart_read_all w of
                     (Fault, w) \<Rightarrow> (Inl SerialException, w)
                   | (Ret empty_rest, w) \<Rightarrow>
                       if response \<noteq> ACK \<or> (case empty_rest of None \<Rightarrow> False | Some e \<Rightarrow> length e \<noteq> 0)
                       then (Inl OSError_NoAck, print (PrintResponse response) w)
                       else upload_chunks rest (index + 1) num_chunks w)))"

definition upload_eot :: "world \<Rightarrow> (error + unit) \<times> world" where
  "upload_eot w =
     (case uart_write EOT w of
        (Fault, w) \<Rightarrow> (Inl SerialException, w)
      | (Ret _, w) \<Rightarrow>
          (case uart_read w of
             (Fault, w) \<Rightarrow> (Inl SerialException, w)
           | (Ret response, w) \<Rightarrow>
               if response \<noteq> ACK
               then (Inl OSError_NoEotAck, w)
               else (Inr (), print PrintFinished w)))"

definition upload_data :: "bytes list \<Rightarrow> world \<Rightarrow> (error + unit) \<times> world" where
  "upload_data chunks w =
     (case serial_Serial w of
        (Fault, w) \<Rightarrow> (Inl SerialException, w)
      | (Ret _, w) \<Rightarrow>
          (case upload_ping w of
             (Inl e, w) \<Rightarrow> (Inl e, w)
           | (Inr _, w) \<Rightarrow>
               (case upload_chunks chunks 1 (length chunks) w of
                  (Inl e, w) \<Rightarrow> (Inl e, w)
                | (Inr _, w) \<Rightarrow> upload_eot w)))"

text \<open>
  The test of line 194 on the reply to a frame, by itself:
  \<^verbatim>\<open>response != ACK or (empty is not None and len(empty) != 0)\<close>.
\<close>

definition bad_reply :: "bytes \<Rightarrow> bytes option \<Rightarrow> bool" where
  "bad_reply response rest =
     (response \<noteq> ACK \<or> (case rest of None \<Rightarrow> False | Some e \<Rightarrow> length e \<noteq> 0))"

section \<open>The program\<close>

text \<open>
  The parsed command line: the bytes read from \<^verbatim>\<open>--file\<close> (\<open>file_contents\<close>), \<^verbatim>\<open>--flash-offset\<close> when
  given, and \<^verbatim>\<open>--no-verify\<close>. \<^verbatim>\<open>--uart-device\<close> names the port, which is the
  world.
\<close>

record arguments =
  file_contents :: bytes
  flash_offset :: "int option"
  no_verify :: bool

text \<open>
  Lines 232 to 248 of \<^verbatim>\<open>main\<close>: from the file to the
  \<^verbatim>\<open>TransferDataCreator\<close>, with its header when a flash offset was given.
\<close>

definition main_transfer_data_creator :: "arguments \<Rightarrow> error + TransferDataCreator" where
  "main_transfer_data_creator args =
     (let d = file_contents args;
          flash_size = int (length d)
      in if length d = 0 then Inl OSError_EmptyFile
         else
          (let flags = 0x0;
               flags = (if no_verify args then flags OR NO_VERIFICATION else flags);
               transfer_data_creator = TransferDataCreator_init d 0x1021
           in case flash_offset args of
                None \<Rightarrow> Inr transfer_data_creator
              | Some off \<Rightarrow> add_header transfer_data_creator off flash_size flags))"

text \<open>Line 250: \<^verbatim>\<open>chunks = transfer_data_creator.get_transfer_chunks()\<close>.\<close>

definition main_chunks :: "arguments \<Rightarrow> error + bytes list" where
  "main_chunks args =
     (case main_transfer_data_creator args of
        Inl e \<Rightarrow> Inl e
      | Inr transfer_data_creator \<Rightarrow> get_transfer_chunks transfer_data_creator)"

definition main :: "arguments \<Rightarrow> world \<Rightarrow> (error + unit) \<times> world" where
  "main args w =
     (let w = print PrintWarning w
      in case main_chunks args of
           Inl e \<Rightarrow> (Inl e, w)
         | Inr chunks \<Rightarrow> upload_data chunks w)"

section \<open>Reading a trace\<close>

text \<open>The byte strings written to the port, in order.\<close>

fun written :: "event list \<Rightarrow> bytes list" where
  "written [] = []"
| "written (Write bs # es) = bs # written es"
| "written (e # es) = written es"

section \<open>The checksum is the classic CRC-16\<close>

lemma and_bit23: "((c::int) AND 0x800000 \<noteq> 0) = bit c 23"
proof -
  have "(0x800000::int) = 2 ^ 23" by simp
  then show ?thesis by (simp only: and_exp_eq_0_iff_not_bit) simp
qed

lemma mask24: "(c::int) AND 0xFFFFFF = take_bit 24 c"
proof -
  have "(0xFFFFFF::int) = mask 24" by (simp add: mask_eq_exp_minus_1)
  then show ?thesis by (simp only: take_bit_eq_mask)
qed

lemma mask16: "(c::int) AND 0xFFFF = take_bit 16 c"
proof -
  have "(0xFFFF::int) = mask 16" by (simp add: mask_eq_exp_minus_1)
  then show ?thesis by (simp only: take_bit_eq_mask)
qed

lemma crc_round_alt:
  "crc_round poly c = take_bit 24 (if bit c 23 then push_bit 1 c XOR push_bit 8 poly else push_bit 1 c)"
  unfolding crc_round_def and_bit23 mask24 ..

lemma crc_round_shift:
  assumes "0 \<le> c" "c < 2 ^ 23"
  shows "crc_round poly c = 2 * c"
proof -
  have nb: "\<not> bit c 23" using assms by (simp add: bit_iff_odd)
  have "take_bit 24 (c * 2) = c * 2"
    using assms by (simp add: take_bit_int_eq_self)
  then show ?thesis by (simp add: crc_round_alt nb push_bit_eq_mult)
qed

lemma crc_rounds_shift:
  "0 \<le> c \<Longrightarrow> c * 2 ^ n < 2 ^ 24 \<Longrightarrow> crc_rounds n poly c = c * 2 ^ n"
proof (induction n arbitrary: c)
  case 0
  then show ?case by simp
next
  case (Suc n)
  have "c * 2 \<le> c * 2 ^ Suc n" using Suc.prems(1) by (simp add: mult_left_mono)
  then have "c < 2 ^ 23" using Suc.prems(2) by simp
  then have r: "crc_round poly c = 2 * c" using Suc.prems(1) by (rule crc_round_shift[rotated])
  have "crc_rounds n poly (2 * c) = (2 * c) * 2 ^ n"
    using Suc.prems by (intro Suc.IH) (simp_all add: mult.assoc mult.commute)
  then show ?case by (simp add: r mult.assoc)
qed

lemma take_bit_uint16: "take_bit 16 (uint (w :: 16 word)) = uint w"
  using uint_lt2p[of w] by (simp add: take_bit_int_eq_self)

lemma crc_round_poly16: "crc_round poly c = crc_round (take_bit 16 poly) c"
proof -
  have "take_bit 24 (x XOR push_bit 8 poly) = take_bit 24 (x XOR push_bit 8 (take_bit 16 poly))" for x
    by (rule bit_eqI) (auto simp add: bit_take_bit_iff bit_push_bit_iff bit_xor_iff)
  then show ?thesis by (simp add: crc_round_alt)
qed

lemma crc_rounds_poly16: "crc_rounds n poly c = crc_rounds n (take_bit 16 poly) c"
  by (induction n arbitrary: c) (simp_all add: crc_round_poly16[of poly])

lemma crc_round_classic:
  "crc_round (uint poly) (push_bit 8 (uint reg)) = push_bit 8 (uint (classic_round poly reg))"
proof -
  let ?u = "uint reg" and ?p = "uint poly"
  have b: "bit (push_bit 8 ?u) 23 = bit reg 15"
    by (simp add: bit_push_bit_iff bit_uint_iff)
  have "take_bit 24 (push_bit k (push_bit 8 ?u)) = push_bit 8 (take_bit 16 (push_bit k ?u))" for k
    by (rule bit_eqI) (auto simp add: bit_take_bit_iff bit_push_bit_iff add.commute)
  moreover have "uint (push_bit k reg) = take_bit 16 (push_bit k ?u)" for k
    by (simp add: unsigned_push_bit_eq)
  ultimately have sh: "take_bit 24 (push_bit 1 (push_bit 8 ?u)) = push_bit 8 (uint (push_bit 1 reg))"
    by (simp only:)
  have "take_bit 24 (push_bit 1 (push_bit 8 ?u) XOR push_bit 8 ?p)
          = take_bit 24 (push_bit 1 (push_bit 8 ?u)) XOR take_bit 24 (push_bit 8 ?p)"
    by (simp only: take_bit_xor)
  also have "take_bit 24 (push_bit 8 ?p) = push_bit 8 ?p"
    by (simp add: take_bit_push_bit take_bit_uint16)
  finally have x: "take_bit 24 (push_bit 1 (push_bit 8 ?u) XOR push_bit 8 ?p)
          = push_bit 8 (uint (push_bit 1 reg XOR poly))"
    by (simp only: sh unsigned_xor_eq push_bit_xor)
  show ?thesis
    unfolding crc_round_alt classic_round_def b
    by (simp only: sh x if_distrib[of "\<lambda>w. push_bit 8 (uint w)"] if_distrib[of "take_bit 24"])
qed

lemma crc_rounds_classic:
  "crc_rounds n (uint poly) (push_bit 8 (uint reg)) = push_bit 8 (uint ((classic_round poly ^^ n) reg))"
proof (induction n arbitrary: reg)
  case 0
  then show ?case by simp
next
  case (Suc n)
  show ?case by (simp add: crc_round_classic Suc.IH funpow_swap1)
qed

lemma uint_xor_byte:
  "uint (reg :: 16 word) XOR push_bit 8 (uint (b :: byte)) = uint (reg XOR push_bit 8 (ucast b))"
proof -
  have "uint (push_bit 8 (ucast b :: 16 word)) = push_bit 8 (uint b)"
    by (rule bit_eqI) (auto simp add: bit_simps dest: bit_imp_le_length)
  then show ?thesis by (simp only: unsigned_xor_eq)
qed

lemma drop_push_uint16: "drop_bit 8 (push_bit 8 (uint (r :: 16 word))) AND 0xFFFF = uint r"
  by (simp add: mask16 drop_bit_push_bit_int take_bit_uint16)

lemma crc_rounds_add:
  "crc_rounds (m + n) poly c = crc_rounds n poly (crc_rounds m poly c)"
  by (induction m arbitrary: c) simp_all

lemma single_byte_classic:
  "calc_crc16_single_byte self (uint b) (uint reg) = uint (classic_byte (word_of_int (polynomial self)) b reg)"
proof -
  let ?p = "word_of_int (polynomial self) :: 16 word"
  let ?r = "reg XOR push_bit 8 (ucast b)"
  have p: "take_bit 16 (polynomial self) = uint ?p"
    by (simp add: uint_word_of_int_eq)
  have "uint ?r * 2 ^ 8 < 2 ^ 16 * 2 ^ 8"
    using uint_lt2p[of ?r] by simp
  then have a: "crc_rounds 8 (polynomial self) (uint ?r) = push_bit 8 (uint ?r)"
    by (simp add: crc_rounds_shift push_bit_eq_mult)
  have "crc_rounds 16 (polynomial self) (uint ?r) = crc_rounds 8 (polynomial self) (push_bit 8 (uint ?r))"
    using crc_rounds_add[of 8 8 "polynomial self" "uint ?r"] by (simp add: a)
  also have "\<dots> = push_bit 8 (uint ((classic_round ?p ^^ 8) ?r))"
    by (simp only: crc_rounds_poly16[of _ "polynomial self"] p crc_rounds_classic)
  finally show ?thesis
    by (simp only: calc_crc16_single_byte_def Let_def uint_xor_byte classic_byte_def drop_push_uint16)
qed

text \<open>
  Claim C1. For every byte sequence, every polynomial and every 16-bit initial value, the
  checksum that \<^verbatim>\<open>calc_crc16\<close> computes with its 24-bit working value is the
  classic CCITT/XMODEM CRC-16 of the data: a 16-bit register, each byte XORed into its
  high byte, eight shift-and-conditionally-XOR rounds per byte. A polynomial wider than
  16 bits acts through its low 16 bits, which is what the mask to 24 bits leaves of it.
\<close>

theorem calc_crc16_classic:
  "calc_crc16 self bs (uint init) = uint (classic_crc16 (word_of_int (polynomial self)) bs init)"
  by (induction bs arbitrary: init) (simp_all add: single_byte_classic)

section \<open>Frames\<close>

lemma pad_zeros_eq: "pad_zeros n ret = ret @ replicate n 0"
  by (induction n arbitrary: ret) (simp_all add: replicate_app_Cons_same)

lemma pad_data_eq:
  "length d \<le> 1024 \<Longrightarrow>
   pad_data d = Inr (d @ replicate ((if length d \<le> 128 then 128 else 1024) - length d) 0)"
  by (simp add: pad_data_def pad_zeros_eq)

lemma pad_data_too_long: "1024 < length d \<Longrightarrow> pad_data d = Inl AssertionError"
  by (simp add: pad_data_def)

lemma to_bytes_ok: "0 \<le> x \<Longrightarrow> x \<le> 255 \<Longrightarrow> to_bytes x = Inr [word_of_int x]"
  by (simp add: to_bytes_def)

lemma to_bytes_low_byte: "to_bytes (x AND 0xFF) = Inr [word_of_int (x AND 0xFF)]"
proof -
  have "0 \<le> x AND 0xFF" by simp
  moreover have "x AND 0xFF \<le> 0xFF" by (rule AND_upper2) simp
  ultimately show ?thesis by (simp add: to_bytes_def)
qed

lemma construct_single_chunk_eq:
  assumes "length d \<le> 1024" "0 \<le> seq" "seq \<le> 255"
  shows "construct_single_chunk self d seq =
     Inr ((if length d > 128 then 0x02 else 0x01) # word_of_int seq # word_of_int (0xFF - seq) #
          (d @ replicate ((if length d \<le> 128 then 128 else 1024) - length d) 0) @
          [word_of_int (drop_bit 8 (calc_crc16 self (d @ replicate ((if length d \<le> 128 then 128 else 1024) - length d) 0) 0) AND 0xFF),
           word_of_int (calc_crc16 self (d @ replicate ((if length d \<le> 128 then 128 else 1024) - length d) 0) 0 AND 0xFF)])"
proof -
  have c: "to_bytes (0xFF - seq) = Inr [word_of_int (0xFF - seq)]"
    using assms by (intro to_bytes_ok) simp_all
  show ?thesis
    unfolding construct_single_chunk_def Let_def
    by (simp only: to_bytes_ok[OF assms(2,3)] c pad_data_eq[OF assms(1)] to_bytes_low_byte sum.case)
       (simp add: STX_def SOH_def)
qed


lemma construct_single_chunk_length:
  assumes "length d \<le> 1024" "0 \<le> seq" "seq \<le> 255"
  shows "map_sum id length (construct_single_chunk self d seq) =
           Inr (if length d \<le> 128 then 133 else 1029)"
  using assms(1) by (simp add: construct_single_chunk_eq[OF assms])

text \<open>
  Claim C2, as the code has it. For every content of at most 1024 bytes and every
  sequence number in 0..255, the frame is the marker, the sequence number, 0xFF minus
  the sequence number, the content right-padded with zero bytes (to 128 bytes for a
  content of at most 128 bytes, to 1024 bytes otherwise), then the high and the low
  byte of the CRC-16 of the padded block alone (polynomial 0x1021, initial value 0).
  So the frame of a content of at most 128 bytes has 133 bytes and starts with 0x01,
  the frame of a longer content has 1029 bytes and starts with 0x02, and the bytes
  after the three header bytes begin with the content, unchanged.
\<close>

theorem construct_single_chunk_frame:
  assumes "length d \<le> 1024" "0 \<le> seq" "seq \<le> 255" "polynomial self = 0x1021"
  shows "let padded = d @ replicate ((if length d \<le> 128 then 128 else 1024) - length d) 0;
             crc = calc_crc16 self padded 0;
             frame = (if length d > 128 then 0x02 else 0x01) # word_of_int seq #
                     word_of_int (0xFF - seq) # padded @
                     [word_of_int (drop_bit 8 crc AND 0xFF), word_of_int (crc AND 0xFF)]
         in construct_single_chunk self d seq = Inr frame \<and>
            length padded = (if length d \<le> 128 then 128 else 1024) \<and>
            length frame = (if length d \<le> 128 then 133 else 1029) \<and>
            hd frame = (if length d \<le> 128 then 0x01 else 0x02) \<and>
            take (length d) (drop 3 frame) = d"
  using assms(1) unfolding Let_def
  by (simp add: construct_single_chunk_eq[OF assms(1,2,3)])

theorem construct_single_chunk_frame_witness:
  "map_sum id length (construct_single_chunk (TransferDataCreator_init [] 0x1021) [0x41] 1) = Inr 133 \<and>
   map_sum id (\<lambda>frame. take 4 frame) (construct_single_chunk (TransferDataCreator_init [] 0x1021) [0x41] 1)
     = Inr [0x01, 0x01, 0xFE, 0x41]"
  using construct_single_chunk_frame[of "[0x41]" 1 "TransferDataCreator_init [] 0x1021"]
  by (simp add: Let_def TransferDataCreator_init_def)

text \<open>
  The frame of a one-byte content has 133 bytes (3 + 128 + 2), not 134.
\<close>

theorem construct_single_chunk_134_counterexample:
  "map_sum id length (construct_single_chunk (TransferDataCreator_init [] 0x1021) [0x41] 1) = Inr 133 \<and>
   map_sum id length (construct_single_chunk (TransferDataCreator_init [] 0x1021) [0x41] 1) \<noteq> Inr 134"
  by (simp add: construct_single_chunk_length)

section \<open>The plan\<close>

lemma to_bytes_uint: "to_bytes (uint (b :: byte)) = Inr [b]"
proof -
  have "uint b < 2 ^ 8" using uint_lt2p[of b] by simp
  then show ?thesis by (simp add: to_bytes_def)
qed

lemma split_data_Cons:
  "split_data (b # bs) parts cur n =
     (if n + 1 = 1024 then split_data bs (parts @ [cur @ [b]]) [] 0
      else split_data bs parts (cur @ [b]) (n + 1))"
  by (simp add: to_bytes_uint Let_def)

text \<open>The blocks of a payload: consecutive slices of k bytes.\<close>

lemma drop_slice: "length pre = k \<Longrightarrow> drop (k * Suc i) (pre @ bs) = drop (k * i) bs"
  by simp

lemma slice_step:
  assumes "length pre = k"
  shows "map (\<lambda>i. take k (drop (k * i) (pre @ bs))) [0..<Suc m]
         = pre # map (\<lambda>i. take k (drop (k * i) bs)) [0..<m]"
proof -
  have dr: "drop (k * Suc i) (pre @ bs) = drop (k * i) bs" for i
    using assms by simp
  have u: "[0..<Suc m] = 0 # map Suc [0..<m]"
    by (simp add: upt_conv_Cons map_Suc_upt del: upt_Suc)
  have "map (\<lambda>i. take k (drop (k * i) (pre @ bs))) (0 # map Suc [0..<m])
        = take k (drop (k * 0) (pre @ bs)) # map (\<lambda>i. take k (drop (k * Suc i) (pre @ bs))) [0..<m]"
    by (simp only: list.map map_map o_def)
  also have "\<dots> = take k (pre @ bs) # map (\<lambda>i. take k (drop (k * i) bs)) [0..<m]"
    by (simp only: dr) simp
  also have "take k (pre @ bs) = pre"
    using assms by simp
  finally show ?thesis by (simp only: u)
qed

lemma split_data_eq_gen:
  assumes "k = 1024"
  shows "length cur < k \<Longrightarrow> n = length cur \<Longrightarrow>
   split_data bs parts cur n =
     Inr (parts @ map (\<lambda>i. take k (drop (k * i) (cur @ bs))) [0..<length (cur @ bs) div k],
          drop (k * (length (cur @ bs) div k)) (cur @ bs),
          length (cur @ bs) mod k)"
proof (induction bs arbitrary: parts cur n)
  case Nil
  then show ?case by simp
next
  case (Cons b bs)
  let ?cur = "cur @ [b]"
  have app: "cur @ b # bs = ?cur @ bs" by simp
  have step: "split_data (b # bs) parts cur n =
     (if n + 1 = k then split_data bs (parts @ [?cur]) [] 0
      else split_data bs parts ?cur (n + 1))"
    unfolding assms by (rule split_data_Cons)
  have kpos: "0 < k" using assms by simp
  show ?case
  proof (cases "n + 1 = k")
    case True
    then have lk: "length ?cur = k" using Cons.prems by simp
    have ih: "split_data bs (parts @ [?cur]) [] 0 =
      Inr ((parts @ [?cur]) @ map (\<lambda>i. take k (drop (k * i) bs)) [0..<length bs div k],
           drop (k * (length bs div k)) bs, length bs mod k)"
      using Cons.IH[of "[]" 0 "parts @ [?cur]"] kpos by simp
    have len: "length (?cur @ bs) = k + length bs" using lk by simp
    have d: "length (?cur @ bs) div k = Suc (length bs div k)"
      unfolding len using div_add_self1[of k "length bs"] kpos by simp
    have m: "length (?cur @ bs) mod k = length bs mod k"
      unfolding len by simp
    have dr: "drop (k * Suc i) (?cur @ bs) = drop (k * i) bs" for i
      using lk by (rule drop_slice)
    show ?thesis
      unfolding app step d m dr slice_step[OF lk]
      using True by (simp add: ih)
  next
    case False
    then have lt: "length ?cur < k" using Cons.prems by simp
    have n1: "n + 1 = length ?cur" using Cons.prems by simp
    show ?thesis
      unfolding app step using False Cons.IH[OF lt n1, of parts] by simp
  qed
qed

lemma split_data_eq:
  "split_data d [] [] 0 =
     Inr (map (\<lambda>i. take 1024 (drop (1024 * i) d)) [0..<length d div 1024],
          drop (1024 * (length d div 1024)) d, length d mod 1024)"
  using split_data_eq_gen[of 1024 "[]" 0 d "[]"] by simp

lemma ceil_div_1024:
  "(n + 1023) div 1024 = (if n mod 1024 = 0 then n div 1024 else Suc (n div 1024))" for n :: nat
proof -
  define q where "q = n div 1024"
  define r where "r = n mod 1024"
  have n: "n = q * 1024 + r" and r: "r < 1024" by (simp_all add: q_def r_def)
  have "(q * 1024 + r + 1023) div 1024 = (if r = 0 then q else Suc q)"
  proof (cases "r = 0")
    case True
    then show ?thesis by simp
  next
    case False
    then obtain r' where r': "r = Suc r'" by (cases r) auto
    have "q * 1024 + r + 1023 = r' + Suc q * 1024" by (simp add: r')
    then have "(q * 1024 + r + 1023) div 1024 = r' div 1024 + Suc q"
      by (simp only: div_mult_self1 [of 1024 r' "Suc q"])
    then show ?thesis using r r' by simp
  qed
  then show ?thesis unfolding n[symmetric] by (simp add: q_def r_def)
qed

lemma ceil_bounds:
  "n = (len + 1023) div 1024 \<Longrightarrow> len \<le> 1024 * n \<and> (0 < n \<longrightarrow> 1024 * (n - 1) < len)" for n len :: nat
  by arith

lemma concat_slices:
  "concat (map (\<lambda>j. take k (drop (k * j) d)) [0..<n]) = take (k * n) d"
proof (induction n)
  case 0
  then show ?case by simp
next
  case (Suc n)
  have "take (k * n) d @ take k (drop (k * n) d) = take (k * n + k) d"
    by (simp add: take_add)
  then show ?case by (simp add: Suc add.commute)
qed

lemma build_chunks_eq:
  assumes "\<forall>p\<in>set parts. length p \<le> 1024" "0 \<le> bn" "bn \<le> 255"
  shows "\<exists>cs. build_chunks self parts bn chunks = Inr (chunks @ cs) \<and>
              length cs = length parts \<and>
              (\<forall>i<length parts.
                 construct_single_chunk self (parts ! i) ((bn + int i) mod 256) = Inr (cs ! i))"
  using assms
proof (induction parts arbitrary: bn chunks)
  case Nil
  then show ?case by simp
next
  case (Cons p ps)
  have lp: "length p \<le> 1024" using Cons.prems(1) by simp
  obtain c where c: "construct_single_chunk self p bn = Inr c"
    using construct_single_chunk_eq[OF lp Cons.prems(2,3), of self] by blast
  define bn' where "bn' = (bn + 1) mod 256"
  have nxt: "(if bn + 1 > 0xFF then 0x0 else bn + 1) = bn'"
    using Cons.prems(2,3) by (simp add: bn'_def)
  have b: "0 \<le> bn'" "bn' \<le> 255" by (simp_all add: bn'_def)
  have ps: "\<forall>p\<in>set ps. length p \<le> 1024" using Cons.prems(1) by simp
  obtain cs where cs: "build_chunks self ps bn' (chunks @ [c]) = Inr ((chunks @ [c]) @ cs)"
      "length cs = length ps"
      "\<forall>i<length ps. construct_single_chunk self (ps ! i) ((bn' + int i) mod 256) = Inr (cs ! i)"
    using Cons.IH[OF ps b, of "chunks @ [c]"] by blast
  have step: "build_chunks self (p # ps) bn chunks = build_chunks self ps bn' (chunks @ [c])"
    by (simp only: build_chunks.simps c sum.case Let_def nxt)
  have m: "(bn' + int i) mod 256 = (bn + int (Suc i)) mod 256" for i
  proof -
    have "((bn + 1) mod 256 + int i) mod 256 = (bn + 1 + int i) mod 256"
      by (rule mod_add_left_eq)
    then show ?thesis by (simp add: bn'_def add.commute add.left_commute)
  qed
  have b0: "(bn + int 0) mod 256 = bn" using Cons.prems(2,3) by simp
  have "\<forall>i<length (p # ps).
          construct_single_chunk self ((p # ps) ! i) ((bn + int i) mod 256) = Inr ((c # cs) ! i)"
  proof (intro allI impI)
    fix i assume i: "i < length (p # ps)"
    show "construct_single_chunk self ((p # ps) ! i) ((bn + int i) mod 256) = Inr ((c # cs) ! i)"
    proof (cases i)
      case 0
      then show ?thesis using c b0 by simp
    next
      case (Suc j)
      then have "j < length ps" using i by simp
      then show ?thesis using cs(3) unfolding Suc m[symmetric] by simp
    qed
  qed
  then show ?case
    using cs(1,2) unfolding step by (intro exI[of _ "c # cs"]) simp
qed

lemma data_parts_final:
  "(if length d mod 1024 \<noteq> 0
    then map (\<lambda>i. take 1024 (drop (1024 * i) d)) [0..<length d div 1024] @
         [drop (1024 * (length d div 1024)) d]
    else map (\<lambda>i. take 1024 (drop (1024 * i) d)) [0..<length d div 1024])
   = map (\<lambda>i. take 1024 (drop (1024 * i) d)) [0..<(length d + 1023) div 1024]"
proof -
  let ?k = "length d div 1024"
  have c: "(length d + 1023) div 1024 = (if length d mod 1024 = 0 then ?k else Suc ?k)"
    by (rule ceil_div_1024)
  show ?thesis
  proof (cases "length d mod 1024 = 0")
    case True
    then show ?thesis by (simp add: c)
  next
    case False
    have "length (drop (1024 * ?k) d) = length d mod 1024"
      by (simp add: minus_mult_div_eq_mod)
    then have "take 1024 (drop (1024 * ?k) d) = drop (1024 * ?k) d" by simp
    then show ?thesis using False by (simp add: c)
  qed
qed

lemma get_transfer_chunks_unfold:
  "get_transfer_chunks self =
     (case header self of
        None \<Rightarrow> build_chunks self
                 (map (\<lambda>i. take 1024 (drop (1024 * i) (data self)))
                      [0..<(length (data self) + 1023) div 1024]) 1 []
      | Some h \<Rightarrow>
          (case construct_single_chunk self h 1 of
             Inl e \<Rightarrow> Inl e
           | Inr c \<Rightarrow> build_chunks self
                 (map (\<lambda>i. take 1024 (drop (1024 * i) (data self)))
                      [0..<(length (data self) + 1023) div 1024]) 2 [c]))"
  unfolding get_transfer_chunks_def split_data_eq sum.case prod.case Let_def data_parts_final
  by (simp split: option.splits sum.splits)

lemma block_length:
  assumes "n = (length d + 1023) div 1024" "j < n"
  shows "length (take 1024 (drop (1024 * j) d)) =
           (if Suc j < n then 1024 else length d - 1024 * (n - 1))"
    and "1 \<le> length (take 1024 (drop (1024 * j) d))"
    and "length (take 1024 (drop (1024 * j) d)) \<le> 1024"
proof -
  have b: "length d \<le> 1024 * n" "1024 * (n - 1) < length d"
    using ceil_bounds[OF assms(1)] assms(2) by auto
  show "length (take 1024 (drop (1024 * j) d)) =
           (if Suc j < n then 1024 else length d - 1024 * (n - 1))"
  proof (cases "Suc j < n")
    case True
    then have "1024 * Suc j \<le> 1024 * (n - 1)" by simp
    then have "1024 * j + 1024 < length d" using b(2) by simp
    then show ?thesis using True by simp
  next
    case False
    then have j: "j = n - 1" using assms(2) by simp
    have "length d - 1024 * (n - 1) \<le> 1024" using b(1) assms(2) by (cases n) simp_all
    then show ?thesis using False j by simp
  qed
  have "1024 * j \<le> 1024 * (n - 1)" using assms(2) by simp
  then have "1024 * j < length d" using b(2) by simp
  then show "1 \<le> length (take 1024 (drop (1024 * j) d))" by simp
  show "length (take 1024 (drop (1024 * j) d)) \<le> 1024" by simp
qed

lemma construct_seq_byte:
  assumes "length d \<le> 1024" "0 \<le> seq" "seq \<le> 255"
          "construct_single_chunk self d seq = Inr f"
  shows "f ! 1 = word_of_int seq"
  using assms(4) unfolding construct_single_chunk_eq[OF assms(1,2,3)] by auto

lemma get_transfer_chunks_frames:
  assumes "case header self of None \<Rightarrow> True | Some h \<Rightarrow> length h \<le> 1024"
  shows "\<exists>plan. get_transfer_chunks self = Inr plan \<and>
      length plan = (case header self of None \<Rightarrow> 0 | Some h \<Rightarrow> 1) +
                    (length (data self) + 1023) div 1024 \<and>
      (\<forall>h. header self = Some h \<longrightarrow> construct_single_chunk self h 1 = Inr (plan ! 0)) \<and>
      (\<forall>j < (length (data self) + 1023) div 1024.
         construct_single_chunk self (take 1024 (drop (1024 * j) (data self)))
           (int ((j + (case header self of None \<Rightarrow> 0 | Some h \<Rightarrow> 1) + 1) mod 256))
         = Inr (plan ! (j + (case header self of None \<Rightarrow> 0 | Some h \<Rightarrow> 1))))"
proof -
  define n where "n = (length (data self) + 1023) div 1024"
  define parts where "parts = map (\<lambda>i. take 1024 (drop (1024 * i) (data self))) [0..<n]"
  have lp: "\<forall>p\<in>set parts. length p \<le> 1024" by (auto simp: parts_def)
  have len: "length parts = n" by (simp add: parts_def)
  have nth: "parts ! j = take 1024 (drop (1024 * j) (data self))" if "j < n" for j
    using that by (simp add: parts_def)
  show ?thesis
  proof (cases "header self")
    case None
    obtain cs where cs: "build_chunks self parts 1 [] = Inr ([] @ cs)" "length cs = length parts"
      "\<forall>i<length parts. construct_single_chunk self (parts ! i) ((1 + int i) mod 256) = Inr (cs ! i)"
      using build_chunks_eq[OF lp, of 1 self "[]"] by auto
    have g: "get_transfer_chunks self = Inr cs"
      using cs(1) by (simp add: get_transfer_chunks_unfold None parts_def n_def)
    have s: "(1 + int j) mod 256 = int ((j + 0 + 1) mod 256)" for j
      by (simp add: zmod_int add.commute)
    have "\<forall>j<n. construct_single_chunk self (take 1024 (drop (1024 * j) (data self)))
                   (int ((j + 0 + 1) mod 256)) = Inr (cs ! (j + 0))"
      using cs(3) unfolding len s by (simp add: nth)
    then show ?thesis
      using g cs(2) len unfolding n_def[symmetric] None by simp
  next
    case (Some h)
    have lh: "length h \<le> 1024" using assms Some by simp
    obtain c where c: "construct_single_chunk self h 1 = Inr c"
      using construct_single_chunk_eq[OF lh, of 1 self] by auto
    obtain cs where cs: "build_chunks self parts 2 [c] = Inr ([c] @ cs)" "length cs = length parts"
      "\<forall>i<length parts. construct_single_chunk self (parts ! i) ((2 + int i) mod 256) = Inr (cs ! i)"
      using build_chunks_eq[OF lp, of 2 self "[c]"] by auto
    have g: "get_transfer_chunks self = Inr (c # cs)"
      using cs(1) c by (simp add: get_transfer_chunks_unfold Some parts_def n_def)
    have s: "(2 + int j) mod 256 = int ((j + 1 + 1) mod 256)" for j
      by (simp add: zmod_int add.commute)
    have "\<forall>j<n. construct_single_chunk self (take 1024 (drop (1024 * j) (data self)))
                   (int ((j + 1 + 1) mod 256)) = Inr ((c # cs) ! (j + 1))"
      using cs(3) unfolding len s by (simp add: nth)
    then show ?thesis
      using g cs(2) len c unfolding n_def[symmetric] Some by simp
  qed
qed

lemma seq_bytes_distinct:
  assumes "\<forall>i<length plan. plan ! i ! 1 = (word_of_nat ((i + 1) mod 256) :: byte)"
          "length plan \<le> 255"
  shows "distinct (map (\<lambda>c. c ! 1) plan)"
proof -
  have "plan ! i ! 1 \<noteq> plan ! j ! 1" if "i < length plan" "j < length plan" "i \<noteq> j" for i j
  proof -
    have i: "i + 1 < 256" and j: "j + 1 < 256" using that assms(2) by simp_all
    have "(word_of_nat (i + 1) :: byte) \<noteq> word_of_nat (j + 1)"
      using i j that(3) by (simp add: word_of_nat_eq_iff take_bit_nat_eq_self)
    then show ?thesis using assms(1) that(1,2) i j by simp
  qed
  then show ?thesis by (simp add: distinct_conv_nth)
qed

text \<open>
  Claim C3. For every payload and optional header (of at most 1024 bytes, 12 when it
  comes from \<^verbatim>\<open>add_header\<close>), planning succeeds and the plan holds
  \<open>ceil(len(payload)/1024)\<close> frames without a header and one more with one. The
  payload frames are built from the consecutive 1024-byte slices of the payload, in
  payload order; every slice but the last has 1024 bytes and the last holds the
  remainder, between 1 and 1024 bytes; together the slices are the payload. The header,
  when present, is the first frame and has sequence number 1, the payload frames follow
  from 2 on; without a header they start at 1. The frame at position \<open>i\<close> of the plan
  carries the sequence number \<open>(i + 1) mod 256\<close>, so 255 is followed by 0 and not
  by 1, and no number repeats in a plan of at most 255 frames.
\<close>

theorem get_transfer_chunks_plan:
  assumes "case header self of None \<Rightarrow> True | Some h \<Rightarrow> length h \<le> 1024"
  shows "\<exists>plan. get_transfer_chunks self = Inr plan \<and>
    (let n = (length (data self) + 1023) div 1024;
         k = (case header self of None \<Rightarrow> 0 | Some h \<Rightarrow> 1);
         block = (\<lambda>j. take 1024 (drop (1024 * j) (data self)))
     in length plan = k + n \<and>
        (\<forall>h. header self = Some h \<longrightarrow> construct_single_chunk self h 1 = Inr (plan ! 0)) \<and>
        (\<forall>j<n. construct_single_chunk self (block j) (int ((j + k + 1) mod 256))
                 = Inr (plan ! (j + k))) \<and>
        concat (map block [0..<n]) = data self \<and>
        (\<forall>j<n. length (block j) =
                   (if Suc j < n then 1024 else length (data self) - 1024 * (n - 1)) \<and>
                 1 \<le> length (block j) \<and> length (block j) \<le> 1024) \<and>
        (\<forall>i<length plan. plan ! i ! 1 = word_of_nat ((i + 1) mod 256)) \<and>
        (length plan \<le> 255 \<longrightarrow> distinct (map (\<lambda>c. c ! 1) plan)))"
proof -
  define n where "n = (length (data self) + 1023) div 1024"
  define k :: nat where "k = (case header self of None \<Rightarrow> 0 | Some h \<Rightarrow> 1)"
  define block where "block = (\<lambda>j. take 1024 (drop (1024 * j) (data self)))"
  obtain plan where plan: "get_transfer_chunks self = Inr plan" "length plan = k + n"
      "\<forall>h. header self = Some h \<longrightarrow> construct_single_chunk self h 1 = Inr (plan ! 0)"
      "\<forall>j<n. construct_single_chunk self (block j) (int ((j + k + 1) mod 256)) = Inr (plan ! (j + k))"
    using get_transfer_chunks_frames[OF assms] unfolding n_def k_def block_def by blast
  have cat: "concat (map block [0..<n]) = data self"
    using ceil_bounds[OF n_def] by (simp add: block_def concat_slices)
  have bl: "\<forall>j<n. length (block j) =
                   (if Suc j < n then 1024 else length (data self) - 1024 * (n - 1)) \<and>
                 1 \<le> length (block j) \<and> length (block j) \<le> 1024"
    using block_length[OF n_def] unfolding block_def by blast
  have k01: "k = 0 \<or> k = 1" by (simp add: k_def split: option.splits)
  have sq: "plan ! i ! 1 = word_of_nat ((i + 1) mod 256)" if i: "i < length plan" for i
  proof (cases "i < k")
    case True
    then have i0: "i = 0" and k1: "k = 1" using k01 by auto
    then obtain h where h: "header self = Some h" by (auto simp: k_def split: option.splits)
    have lh: "length h \<le> 1024" using assms h by simp
    have "construct_single_chunk self h 1 = Inr (plan ! 0)" using plan(3) h by blast
    then have "plan ! 0 ! 1 = word_of_int 1"
      by (rule construct_seq_byte[OF lh, rotated 2]) simp_all
    then show ?thesis by (simp add: i0)
  next
    case False
    define j where "j = i - k"
    have j: "j < n" "i = j + k" using False i plan(2) by (simp_all add: j_def)
    have lb: "length (block j) \<le> 1024" by (simp add: block_def)
    have "construct_single_chunk self (block j) (int ((j + k + 1) mod 256)) = Inr (plan ! (j + k))"
      using plan(4) j(1) by blast
    then have "plan ! (j + k) ! 1 = word_of_int (int ((j + k + 1) mod 256))"
      by (rule construct_seq_byte[OF lb, rotated 2]) simp_all
    then show ?thesis by (simp add: j(2))
  qed
  have di: "length plan \<le> 255 \<longrightarrow> distinct (map (\<lambda>c. c ! 1) plan)"
    using seq_bytes_distinct[of plan] sq by blast
  show ?thesis
    unfolding Let_def n_def[symmetric] k_def[symmetric] block_def[symmetric]
  proof (intro exI[of _ plan] conjI)
    show "get_transfer_chunks self = Inr plan" by (rule plan(1))
    show "length plan = k + n" by (rule plan(2))
    show "\<forall>h. header self = Some h \<longrightarrow> construct_single_chunk self h 1 = Inr (plan ! 0)"
      by (rule plan(3))
    show "\<forall>j<n. construct_single_chunk self (block j) (int ((j + k + 1) mod 256)) = Inr (plan ! (j + k))"
      by (rule plan(4))
    show "concat (map block [0..<n]) = data self" by (rule cat)
    show "\<forall>j<n. length (block j) =
                   (if Suc j < n then 1024 else length (data self) - 1024 * (n - 1)) \<and>
                 1 \<le> length (block j) \<and> length (block j) \<le> 1024" by (rule bl)
    show "\<forall>i<length plan. plan ! i ! 1 = word_of_nat ((i + 1) mod 256)" using sq by blast
    show "length plan \<le> 255 \<longrightarrow> distinct (map (\<lambda>c. c ! 1) plan)" by (rule di)
  qed
qed

theorem get_transfer_chunks_plan_witness:
  "map_sum id (\<lambda>plan. (length plan, plan ! 0 ! 1, plan ! 1 ! 1))
     (get_transfer_chunks
        \<lparr>polynomial = 0x1021, data = [0x41],
         header = Some [0x00, 0x00, 0x10, 0x00, 0x00, 0x00, 0x00, 0x01, 0x00, 0x00, 0x00, 0x00]\<rparr>)
   = Inr (2, 1, 2)"
proof -
  let ?self = "\<lparr>polynomial = 0x1021, data = [0x41],
         header = Some [0x00, 0x00, 0x10, 0x00, 0x00, 0x00, 0x00, 0x01, 0x00, 0x00, 0x00, 0x00]\<rparr>"
  have h: "case header ?self of None \<Rightarrow> True | Some h \<Rightarrow> length h \<le> 1024" by simp
  from get_transfer_chunks_plan[OF h] obtain plan where
    g: "get_transfer_chunks ?self = Inr plan" and
    q: "let n = (length (data ?self) + 1023) div 1024;
         k = (case header ?self of None \<Rightarrow> 0 | Some h \<Rightarrow> 1);
         block = (\<lambda>j. take 1024 (drop (1024 * j) (data ?self)))
     in length plan = k + n \<and>
        (\<forall>h. header ?self = Some h \<longrightarrow> construct_single_chunk ?self h 1 = Inr (plan ! 0)) \<and>
        (\<forall>j<n. construct_single_chunk ?self (block j) (int ((j + k + 1) mod 256))
                 = Inr (plan ! (j + k))) \<and>
        concat (map block [0..<n]) = data ?self \<and>
        (\<forall>j<n. length (block j) =
                   (if Suc j < n then 1024 else length (data ?self) - 1024 * (n - 1)) \<and>
                 1 \<le> length (block j) \<and> length (block j) \<le> 1024) \<and>
        (\<forall>i<length plan. plan ! i ! 1 = word_of_nat ((i + 1) mod 256)) \<and>
        (length plan \<le> 255 \<longrightarrow> distinct (map (\<lambda>c. c ! 1) plan))"
    by (elim exE conjE)
  note q' = q[unfolded Let_def]
  have len: "length plan = 2" using q'[THEN conjunct1] by simp
  have sq: "\<forall>i<length plan. plan ! i ! 1 = word_of_nat ((i + 1) mod 256)"
    by (rule q'[THEN conjunct2, THEN conjunct2, THEN conjunct2, THEN conjunct2,
                THEN conjunct2, THEN conjunct1])
  have s0: "plan ! 0 ! 1 = 1" using sq[rule_format, of 0] len by simp
  have s1: "plan ! 1 ! 1 = 2" using sq[rule_format, of 1] len by simp
  show ?thesis using g len s0 s1 by simp
qed

section \<open>The session\<close>

lemma written_append: "written (xs @ ys) = written xs @ written ys"
  by (induction xs rule: written.induct) simp_all

lemma uart_write_simps:
  "fst (uart_write bs w) = next_write w"
  "trace (snd (uart_write bs w)) = trace w @ [Write bs]"
  "read_results (snd (uart_write bs w)) = read_results w"
  "read_all_results (snd (uart_write bs w)) = read_all_results w"
  "write_results (snd (uart_write bs w)) = tl (write_results w)"
  by (simp_all add: uart_write_def)

lemma uart_read_simps:
  "fst (uart_read w) = next_read w"
  "trace (snd (uart_read w)) = trace w @ [Read]"
  "read_results (snd (uart_read w)) = tl (read_results w)"
  "read_all_results (snd (uart_read w)) = read_all_results w"
  "write_results (snd (uart_read w)) = write_results w"
  by (simp_all add: uart_read_def)

lemma uart_read_all_simps:
  "fst (uart_read_all w) = next_read_all w"
  "trace (snd (uart_read_all w)) = trace w @ [ReadAll]"
  "read_results (snd (uart_read_all w)) = read_results w"
  "read_all_results (snd (uart_read_all w)) = tl (read_all_results w)"
  "write_results (snd (uart_read_all w)) = write_results w"
  by (simp_all add: uart_read_all_def)

lemma print_simps:
  "trace (print e w) = trace w @ [e]"
  "read_results (print e w) = read_results w"
  "read_all_results (print e w) = read_all_results w"
  "write_results (print e w) = write_results w"
  "next_read (print e w) = next_read w"
  "next_read_all (print e w) = next_read_all w"
  "next_write (print e w) = next_write w"
  by (simp_all add: print_def next_read_def next_read_all_def next_write_def)

lemma next_after_simps:
  "next_read (snd (uart_write bs w)) = next_read w"
  "next_read_all (snd (uart_write bs w)) = next_read_all w"
  "next_read_all (snd (uart_read w)) = next_read_all w"
  "next_write (snd (uart_read w)) = next_write w"
  "next_read (snd (uart_read_all w)) = next_read w"
  "next_write (snd (uart_read_all w)) = next_write w"
  "next_read (snd (serial_Serial w)) = next_read w"
  "next_read_all (snd (serial_Serial w)) = next_read_all w"
  "next_write (snd (serial_Serial w)) = next_write w"
  by (simp_all add: uart_write_def uart_read_def uart_read_all_def serial_Serial_def
        next_read_def next_read_all_def next_write_def)

lemma upload_chunks_Cons:
  "upload_chunks (chunk # rest) index n w =
     (let w1 = print (PrintSending index n) w;
          w2 = snd (uart_write chunk w1);
          w3 = snd (uart_read w2);
          w4 = snd (uart_read_all w3)
      in case next_write w of
           Fault \<Rightarrow> (Inl SerialException, w2)
         | Ret u \<Rightarrow>
            (case next_read w of
               Fault \<Rightarrow> (Inl SerialException, w3)
             | Ret response \<Rightarrow>
                (case next_read_all w of
                   Fault \<Rightarrow> (Inl SerialException, w4)
                 | Ret pending \<Rightarrow>
                     if bad_reply response pending
                     then (Inl OSError_NoAck, print (PrintResponse response) w4)
                     else upload_chunks rest (index + 1) n w4)))"
  by (simp add: Let_def bad_reply_def uart_write_def uart_read_def uart_read_all_def print_def
        next_read_def next_read_all_def next_write_def
      split: reply.splits list.splits)

lemma upload_chunks_append:
  "upload_chunks (xs @ ys) index n w =
     (case upload_chunks xs index n w of
        (Inl e, w') \<Rightarrow> (Inl e, w')
      | (Inr u, w') \<Rightarrow> upload_chunks ys (index + length xs) n w')"
proof (induction xs arbitrary: index w)
  case Nil
  then show ?case by simp
next
  case (Cons x xs)
  show ?case
    unfolding append_Cons upload_chunks_Cons Let_def
    by (simp add: Cons.IH split: reply.splits prod.splits sum.splits)
qed

lemma upload_chunks_ok_written:
  "upload_chunks xs index n w = (Inr u, w') \<Longrightarrow> written (trace w') = written (trace w) @ xs"
proof (induction xs arbitrary: index w)
  case Nil
  then show ?case by simp
next
  case (Cons x xs)
  from Cons.prems obtain response pending where
    r: "next_write w = Ret ()" "next_read w = Ret response" "next_read_all w = Ret pending"
       "\<not> bad_reply response pending"
    and rest: "upload_chunks xs (index + 1) n
        (snd (uart_read_all (snd (uart_read (snd (uart_write x (print (PrintSending index n) w))))))) = (Inr u, w')"
    unfolding upload_chunks_Cons Let_def
    by (auto split: reply.splits if_splits)
  show ?case
    using Cons.IH[OF rest]
    by (simp add: uart_write_simps uart_read_simps uart_read_all_simps print_simps written_append)
qed

lemma upload_chunks_bad:
  assumes "next_write w = Ret ()" "next_read w = Ret response" "next_read_all w = Ret pending"
          "bad_reply response pending"
  shows "upload_chunks (c # post) index n w =
           (Inl OSError_NoAck,
            print (PrintResponse response)
              (snd (uart_read_all (snd (uart_read (snd (uart_write c (print (PrintSending index n) w))))))))"
  unfolding upload_chunks_Cons Let_def using assms by simp

lemma upload_ping_written: "written (trace (snd (upload_ping w))) = written (trace w)"
  by (simp add: upload_ping_def uart_read_all_def uart_read_def written_append
      split: reply.splits option.splits prod.splits)

lemma serial_Serial_simps:
  "fst (serial_Serial w) = open_result w"
  "trace (snd (serial_Serial w)) = trace w @ [Open]"
  by (simp_all add: serial_Serial_def)

lemma upload_data_unfold:
  assumes "open_result w = Ret ()" "upload_ping (snd (serial_Serial w)) = (Inr (), w0)"
  shows "upload_data chunks w =
           (case upload_chunks chunks 1 (length chunks) w0 of
              (Inl e, w') \<Rightarrow> (Inl e, w')
            | (Inr u, w') \<Rightarrow> upload_eot w')"
  using assms by (simp add: upload_data_def serial_Serial_def split: prod.splits)

text \<open>
  Claim C4. While the chunks are sent: when the frames before a frame were all
  acknowledged and the one-byte reply to that frame is not 0x06, or bytes are pending
  behind it, the session raises the exception of line 196 at once. The trace ends with
  the progress line of that frame (its position, counted from 1), the write of the
  frame, the two reads and the printed reply; the frames written in the session are
  that frame and the ones before it, and nothing after.
\<close>

theorem upload_data_unexpected_reply:
  assumes "open_result w = Ret ()"
      and "upload_ping (snd (serial_Serial w)) = (Inr (), w0)"
      and "upload_chunks pre 1 (length (pre @ c # post)) w0 = (Inr (), w1)"
      and "next_write w1 = Ret ()"
      and "next_read w1 = Ret response"
      and "next_read_all w1 = Ret pending"
      and "response \<noteq> ACK \<or> (\<exists>e. pending = Some e \<and> e \<noteq> [])"
  shows "fst (upload_data (pre @ c # post) w) = Inl OSError_NoAck \<and>
         trace (snd (upload_data (pre @ c # post) w)) =
           trace w1 @ [PrintSending (length pre + 1) (length (pre @ c # post)),
                       Write c, Read, ReadAll, PrintResponse response] \<and>
         written (trace (snd (upload_data (pre @ c # post) w))) = written (trace w) @ pre @ [c]"
proof -
  let ?n = "length (pre @ c # post)"
  have bad: "bad_reply response pending"
    using assms(7) by (auto simp: bad_reply_def)
  have loop: "upload_chunks (pre @ c # post) 1 ?n w0 = upload_chunks (c # post) (1 + length pre) ?n w1"
    by (simp only: upload_chunks_append[of pre "c # post"] assms(3) prod.case sum.case)
  have res: "upload_data (pre @ c # post) w =
           (Inl OSError_NoAck,
            print (PrintResponse response)
              (snd (uart_read_all (snd (uart_read (snd (uart_write c
                 (print (PrintSending (1 + length pre) ?n) w1))))))))"
    by (simp only: upload_data_unfold[OF assms(1,2)] loop
          upload_chunks_bad[OF assms(4,5,6) bad] prod.case sum.case)
  have w0: "written (trace w0) = written (trace w)"
    using upload_ping_written[of "snd (serial_Serial w)"] assms(2)
    by (simp add: serial_Serial_simps written_append)
  have w1: "written (trace w1) = written (trace w) @ pre"
    using upload_chunks_ok_written[OF assms(3)] w0 by simp
  show ?thesis
    unfolding res
    by (simp add: print_simps uart_write_simps uart_read_simps uart_read_all_simps
          written_append w1)
qed

theorem upload_data_unexpected_reply_witness:
  "fst (upload_data [[0x01, 0x01, 0xFE], [0x01, 0x02, 0xFD]]
          \<lparr>open_result = Ret (), read_results = [Ret NAK],
           read_all_results = [Ret (Some PING)], write_results = [], trace = []\<rparr>)
     = Inl OSError_NoAck \<and>
   written (trace (snd (upload_data [[0x01, 0x01, 0xFE], [0x01, 0x02, 0xFD]]
          \<lparr>open_result = Ret (), read_results = [Ret NAK],
           read_all_results = [Ret (Some PING)], write_results = [], trace = []\<rparr>)))
     = [[0x01, 0x01, 0xFE]]"
proof -
  let ?w = "\<lparr>open_result = Ret (), read_results = [Ret NAK],
           read_all_results = [Ret (Some PING)], write_results = [], trace = []\<rparr>"
  let ?v = "snd (upload_ping (snd (serial_Serial ?w)))"
  have a: "open_result ?w = Ret ()" by simp
  have b: "upload_ping (snd (serial_Serial ?w)) = (Inr (), ?v)"
    by (simp add: upload_ping_def serial_Serial_def uart_read_all_def next_read_all_def
          endswith_def PING_def)
  have c: "upload_chunks [] 1 (length ([] @ [0x01, 0x01, 0xFE] # [[0x01, 0x02, 0xFD]])) ?v = (Inr (), ?v)"
    by simp
  have d: "next_write ?v = Ret ()" "next_read ?v = Ret NAK" "next_read_all ?v = Ret (Some [])"
    by (simp_all add: upload_ping_def serial_Serial_def uart_read_all_def next_read_all_def
          next_read_def next_write_def endswith_def PING_def)
  have e: "NAK \<noteq> ACK \<or> (\<exists>e. Some [] = Some e \<and> e \<noteq> [])"
    by (simp add: NAK_def ACK_def)
  note t = upload_data_unexpected_reply[OF a b c d e]
  show ?thesis
    using t[THEN conjunct1] t[THEN conjunct2, THEN conjunct2] by simp
qed

lemma endswith_PING: "endswith r PING = (r \<noteq> [] \<and> last r = 0x43)"
proof (cases r rule: rev_cases)
  case Nil
  then show ?thesis by (simp add: endswith_def PING_def)
next
  case (snoc ys y)
  then show ?thesis by (simp add: endswith_def PING_def)
qed

lemma upload_ping_result:
  assumes "next_read_all w = Ret buffered" "buffered = None \<longrightarrow> next_read w = Ret one"
  shows "fst (upload_ping w) =
           (if (case buffered of Some r \<Rightarrow> r | None \<Rightarrow> one) \<noteq> [] \<and>
               last (case buffered of Some r \<Rightarrow> r | None \<Rightarrow> one) = 0x43
            then Inr () else Inl OSError_NoPing)"
proof (cases buffered)
  case None
  then have "next_read (snd (uart_read_all w)) = Ret one"
    using assms(2) by (simp add: next_after_simps)
  then show ?thesis
    using assms(1) None
    by (simp add: upload_ping_def uart_read_all_def uart_read_def endswith_PING
          split: prod.splits)
next
  case (Some r)
  then show ?thesis
    using assms(1)
    by (simp add: upload_ping_def uart_read_all_def endswith_PING split: prod.splits)
qed

lemma upload_chunks_not_NoPing: "fst (upload_chunks xs index n w) \<noteq> Inl OSError_NoPing"
proof (induction xs arbitrary: index w)
  case Nil
  then show ?case by simp
next
  case (Cons x xs)
  show ?case
    unfolding upload_chunks_Cons Let_def
    by (simp add: Cons.IH split: reply.splits)
qed

lemma upload_eot_not_NoPing: "fst (upload_eot w) \<noteq> Inl OSError_NoPing"
  by (simp add: upload_eot_def uart_write_def uart_read_def split: reply.splits prod.splits)

lemma upload_data_ping_failed:
  assumes "open_result w = Ret ()" "fst (upload_ping (snd (serial_Serial w))) = Inl e"
  shows "upload_data chunks w = (Inl e, snd (upload_ping (snd (serial_Serial w))))"
proof -
  obtain w' where p: "upload_ping (snd (serial_Serial w)) = (Inl e, w')"
    using assms(2) by (cases "upload_ping (snd (serial_Serial w))") auto
  have s: "serial_Serial w = (Ret (), snd (serial_Serial w))"
    using assms(1) by (simp add: serial_Serial_def)
  show ?thesis
    unfolding upload_data_def by (subst s) (simp add: p)
qed

lemma upload_ping_world:
  assumes "next_read_all w = Ret buffered" "buffered = None \<longrightarrow> next_read w = Ret one"
  shows "snd (upload_ping w) =
           w\<lparr>read_results := (if buffered = None then tl (read_results w) else read_results w),
             read_all_results := tl (read_all_results w),
             trace := trace w @ [ReadAll] @ (if buffered = None then [Read] else [])\<rparr>"
proof (cases buffered)
  case None
  then have "next_read (snd (uart_read_all w)) = Ret one"
    using assms(2) by (simp add: next_after_simps)
  then show ?thesis
    using assms(1) None
    by (simp add: upload_ping_def uart_read_all_def uart_read_def split: prod.splits)
next
  case (Some r)
  then show ?thesis
    using assms(1)
    by (simp add: upload_ping_def uart_read_all_def split: prod.splits)
qed

text \<open>
  Claim C6. With the port opened and the reads of the handshake answered, the handshake
  first takes what is buffered on the port: it calls \<^verbatim>\<open>read_all()\<close>, which empties the
  buffer, and calls \<^verbatim>\<open>read()\<close> once more only when \<^verbatim>\<open>read_all()\<close> gave \<^verbatim>\<open>None\<close>;
  these are its only calls, and the data received is what they returned. The handshake
  succeeds exactly when that data is not empty and its last byte is 0x43. Then the
  chunks are sent to a port whose buffered bytes are gone. Otherwise, and only then,
  the session ends there with the exception of line 178, and nothing has been written
  to the port.
\<close>

theorem upload_ping_ready_marker:
  assumes "open_result w = Ret ()"
      and "next_read_all w = Ret buffered"
      and "buffered = None \<longrightarrow> next_read w = Ret one"
  shows "let received = (case buffered of Some r \<Rightarrow> r | None \<Rightarrow> one);
             ready = (received \<noteq> [] \<and> last received = 0x43);
             after = w\<lparr>read_results :=
                          (if buffered = None then tl (read_results w) else read_results w),
                        read_all_results := tl (read_all_results w),
                        trace := trace w @ [Open, ReadAll] @
                                 (if buffered = None then [Read] else [])\<rparr>
         in upload_ping (snd (serial_Serial w)) =
              (if ready then Inr () else Inl OSError_NoPing, after) \<and>
            (fst (upload_ping (snd (serial_Serial w))) = Inr ()) = ready \<and>
            (fst (upload_data chunks w) = Inl OSError_NoPing) = (\<not> ready) \<and>
            (ready \<longrightarrow>
               upload_data chunks w =
                 (case upload_chunks chunks 1 (length chunks) after of
                    (Inl e, v) \<Rightarrow> (Inl e, v)
                  | (Inr u, v) \<Rightarrow> upload_eot v)) \<and>
            (\<not> ready \<longrightarrow>
               upload_data chunks w = (Inl OSError_NoPing, after) \<and>
               written (trace (snd (upload_data chunks w))) = written (trace w))"
proof -
  let ?w = "snd (serial_Serial w)"
  let ?received = "case buffered of Some r \<Rightarrow> r | None \<Rightarrow> one"
  let ?ready = "?received \<noteq> [] \<and> last ?received = 0x43"
  let ?after = "w\<lparr>read_results :=
                          (if buffered = None then tl (read_results w) else read_results w),
                        read_all_results := tl (read_all_results w),
                        trace := trace w @ [Open, ReadAll] @
                                 (if buffered = None then [Read] else [])\<rparr>"
  have n1: "next_read_all ?w = Ret buffered"
    using assms(2) by (simp add: next_after_simps)
  have n2: "buffered = None \<longrightarrow> next_read ?w = Ret one"
    using assms(3) by (simp add: next_after_simps)
  have p: "fst (upload_ping ?w) = (if ?ready then Inr () else Inl OSError_NoPing)"
    by (rule upload_ping_result[OF n1 n2])
  have q: "snd (upload_ping ?w) = ?after"
    unfolding upload_ping_world[OF n1 n2] by (simp add: serial_Serial_def)
  have pq: "upload_ping ?w = (if ?ready then Inr () else Inl OSError_NoPing, ?after)"
    by (simp add: prod_eq_iff p q)
  have a: "(fst (upload_ping ?w) = Inr ()) = ?ready" by (simp add: p)
  have wr: "written (trace (snd (upload_ping ?w))) = written (trace w)"
    by (simp add: upload_ping_written serial_Serial_simps written_append)
  have d: "?ready \<longrightarrow>
               upload_data chunks w =
                 (case upload_chunks chunks 1 (length chunks) ?after of
                    (Inl e, v) \<Rightarrow> (Inl e, v)
                  | (Inr u, v) \<Rightarrow> upload_eot v)"
  proof
    assume r: ?ready
    have "upload_ping ?w = (Inr (), ?after)" unfolding pq using r by simp
    then show "upload_data chunks w =
                 (case upload_chunks chunks 1 (length chunks) ?after of
                    (Inl e, v) \<Rightarrow> (Inl e, v)
                  | (Inr u, v) \<Rightarrow> upload_eot v)"
      by (rule upload_data_unfold[OF assms(1)])
  qed
  have b: "(fst (upload_data chunks w) = Inl OSError_NoPing) = (\<not> ?ready)"
  proof (cases ?ready)
    case True
    obtain r v where uc: "upload_chunks chunks 1 (length chunks) ?after = (r, v)"
      by (cases "upload_chunks chunks 1 (length chunks) ?after") blast
    have rn: "r \<noteq> Inl OSError_NoPing"
      using upload_chunks_not_NoPing[of chunks 1 "length chunks" ?after] unfolding uc by simp
    have ud: "upload_data chunks w =
                 (case (r, v) of (Inl e, v) \<Rightarrow> (Inl e, v) | (Inr u, v) \<Rightarrow> upload_eot v)"
      using d True unfolding uc by blast
    have "fst (upload_data chunks w) \<noteq> Inl OSError_NoPing"
    proof (cases r)
      case (Inl e)
      then show ?thesis using rn unfolding ud by simp
    next
      case (Inr u)
      then show ?thesis unfolding ud by (simp add: upload_eot_not_NoPing)
    qed
    then show ?thesis using True by blast
  next
    case False
    then have "fst (upload_ping ?w) = Inl OSError_NoPing" unfolding p by simp
    then have "upload_data chunks w = (Inl OSError_NoPing, snd (upload_ping ?w))"
      by (rule upload_data_ping_failed[OF assms(1)])
    then show ?thesis using False by simp
  qed
  have c: "\<not> ?ready \<longrightarrow>
               upload_data chunks w = (Inl OSError_NoPing, ?after) \<and>
               written (trace (snd (upload_data chunks w))) = written (trace w)"
  proof
    assume "\<not> ?ready"
    then have "fst (upload_ping ?w) = Inl OSError_NoPing" unfolding p by simp
    then have u: "upload_data chunks w = (Inl OSError_NoPing, snd (upload_ping ?w))"
      by (rule upload_data_ping_failed[OF assms(1)])
    have u1: "upload_data chunks w = (Inl OSError_NoPing, ?after)"
      using u unfolding q .
    have "written (trace (snd (upload_data chunks w))) = written (trace w)"
      unfolding u using wr by simp
    then show "upload_data chunks w = (Inl OSError_NoPing, ?after) \<and>
               written (trace (snd (upload_data chunks w))) = written (trace w)"
      using u1 by (rule_tac conjI)
  qed
  show ?thesis unfolding Let_def
    by (intro conjI) (rule pq, rule a, rule b, rule d, rule c)
qed

text \<open>
  Two sessions with one frame to send. In the first the receiver's boot output, ending
  in the ping, is buffered when the session starts; the frame is acknowledged and
  nothing is pending behind the acknowledgement. The handshake reads the buffer empty
  and succeeds, and the session completes. In the second the boot output does not end
  in the ping: the handshake reads it all the same, and the session stops there.
\<close>

theorem upload_ping_ready_marker_witness:
  "upload_ping (snd (serial_Serial
          \<lparr>open_result = Ret (), read_results = [Ret ACK, Ret ACK],
           read_all_results = [Ret (Some [0x62, 0x6F, 0x6F, 0x74, 0x0A, 0x43])],
           write_results = [], trace = []\<rparr>))
     = (Inr (),
        \<lparr>open_result = Ret (), read_results = [Ret ACK, Ret ACK],
         read_all_results = [], write_results = [], trace = [Open, ReadAll]\<rparr>) \<and>
   upload_data [[0x01, 0x01, 0xFE]]
          \<lparr>open_result = Ret (), read_results = [Ret ACK, Ret ACK],
           read_all_results = [Ret (Some [0x62, 0x6F, 0x6F, 0x74, 0x0A, 0x43])],
           write_results = [], trace = []\<rparr>
     = (Inr (),
        \<lparr>open_result = Ret (), read_results = [],
         read_all_results = [], write_results = [],
         trace = [Open, ReadAll, PrintSending 1 1, Write [0x01, 0x01, 0xFE], Read, ReadAll,
                  Write EOT, Read, PrintFinished]\<rparr>) \<and>
   upload_data [[0x01, 0x01, 0xFE]]
          \<lparr>open_result = Ret (), read_results = [],
           read_all_results = [Ret (Some [0x62, 0x6F, 0x6F, 0x74])],
           write_results = [], trace = []\<rparr>
     = (Inl OSError_NoPing,
        \<lparr>open_result = Ret (), read_results = [],
         read_all_results = [], write_results = [], trace = [Open, ReadAll]\<rparr>)"
proof -
  let ?w = "\<lparr>open_result = Ret (), read_results = [Ret ACK, Ret ACK],
           read_all_results = [Ret (Some [0x62, 0x6F, 0x6F, 0x74, 0x0A, 0x43])],
           write_results = [], trace = []\<rparr>"
  have a: "open_result ?w = Ret ()" by simp
  have b: "next_read_all ?w = Ret (Some [0x62, 0x6F, 0x6F, 0x74, 0x0A, 0x43])"
    by (simp add: next_read_all_def)
  have c: "Some [0x62, 0x6F, 0x6F, 0x74, 0x0A, 0x43 :: byte] = None \<longrightarrow> next_read ?w = Ret []"
    by simp
  note t = upload_ping_ready_marker[OF a b c, of "[[0x01, 0x01, 0xFE]]", unfolded Let_def]
  have h: "upload_ping (snd (serial_Serial ?w))
     = (Inr (),
        \<lparr>open_result = Ret (), read_results = [Ret ACK, Ret ACK],
         read_all_results = [], write_results = [], trace = [Open, ReadAll]\<rparr>)"
    using t[THEN conjunct1] by simp
  have s: "upload_data [[0x01, 0x01, 0xFE]] ?w =
       (case upload_chunks [[0x01, 0x01, 0xFE]] 1 (length [[0x01, 0x01, 0xFE :: byte]])
               \<lparr>open_result = Ret (), read_results = [Ret ACK, Ret ACK],
                read_all_results = [], write_results = [], trace = [Open, ReadAll]\<rparr> of
          (Inl e, v) \<Rightarrow> (Inl e, v)
        | (Inr u, v) \<Rightarrow> upload_eot v)"
    using t[THEN conjunct2, THEN conjunct2, THEN conjunct2, THEN conjunct1] by simp
  have ok: "upload_data [[0x01, 0x01, 0xFE]] ?w
     = (Inr (),
        \<lparr>open_result = Ret (), read_results = [],
         read_all_results = [], write_results = [],
         trace = [Open, ReadAll, PrintSending 1 1, Write [0x01, 0x01, 0xFE], Read, ReadAll,
                  Write EOT, Read, PrintFinished]\<rparr>)"
    unfolding s
    by (simp add: upload_eot_def uart_write_def uart_read_def uart_read_all_def print_def
          next_read_def next_read_all_def next_write_def)
  let ?v = "\<lparr>open_result = Ret (), read_results = [],
           read_all_results = [Ret (Some [0x62, 0x6F, 0x6F, 0x74])],
           write_results = [], trace = []\<rparr>"
  have a': "open_result ?v = Ret ()" by simp
  have b': "next_read_all ?v = Ret (Some [0x62, 0x6F, 0x6F, 0x74])"
    by (simp add: next_read_all_def)
  have c': "Some [0x62, 0x6F, 0x6F, 0x74 :: byte] = None \<longrightarrow> next_read ?v = Ret []" by simp
  note f = upload_ping_ready_marker[OF a' b' c', of "[[0x01, 0x01, 0xFE]]", unfolded Let_def]
  have no: "upload_data [[0x01, 0x01, 0xFE]] ?v
     = (Inl OSError_NoPing,
        \<lparr>open_result = Ret (), read_results = [],
         read_all_results = [], write_results = [], trace = [Open, ReadAll]\<rparr>)"
    using f[THEN conjunct2, THEN conjunct2, THEN conjunct2, THEN conjunct2] by simp
  show ?thesis using h ok no by (intro conjI)
qed

lemma upload_eot_result:
  assumes "next_write w = Ret ()" "next_read w = Ret response"
  shows "upload_eot w =
           (if response \<noteq> ACK
            then (Inl OSError_NoEotAck, snd (uart_read (snd (uart_write EOT w))))
            else (Inr (), print PrintFinished (snd (uart_read (snd (uart_write EOT w))))))"
  using assms
  by (simp add: upload_eot_def uart_write_def uart_read_def next_read_def next_write_def
      split: list.splits)

text \<open>
  Claim C7, as the code has it. After the last frame is acknowledged the session writes
  the one byte 0x04 and reads one reply. It completes exactly when that reply is 0x06
  and raises the exception of line 202 otherwise. It does not ask the port for pending
  bytes after that reply: what \<^verbatim>\<open>read_all()\<close> would return is left unread and has no
  part in the outcome.
\<close>

theorem upload_eot_final_ack:
  assumes "open_result w = Ret ()"
      and "upload_ping (snd (serial_Serial w)) = (Inr (), w0)"
      and "upload_chunks chunks 1 (length chunks) w0 = (Inr (), w1)"
      and "next_write w1 = Ret ()"
      and "next_read w1 = Ret response"
  shows "(fst (upload_data chunks w) = Inr ()) = (response = ACK) \<and>
         (response \<noteq> ACK \<longrightarrow> fst (upload_data chunks w) = Inl OSError_NoEotAck) \<and>
         trace (snd (upload_data chunks w)) =
           trace w1 @ [Write EOT, Read] @ (if response = ACK then [PrintFinished] else []) \<and>
         read_all_results (snd (upload_data chunks w)) = read_all_results w1"
proof -
  have "upload_data chunks w = upload_eot w1"
    by (simp only: upload_data_unfold[OF assms(1,2)] assms(3) prod.case sum.case)
  then show ?thesis
    by (simp add: upload_eot_result[OF assms(4,5)] print_simps uart_write_simps uart_read_simps)
qed

theorem upload_eot_final_ack_witness:
  "fst (upload_data []
          \<lparr>open_result = Ret (), read_results = [Ret NAK],
           read_all_results = [Ret (Some PING)], write_results = [], trace = []\<rparr>)
     = Inl OSError_NoEotAck"
proof -
  let ?w = "\<lparr>open_result = Ret (), read_results = [Ret NAK],
           read_all_results = [Ret (Some PING)], write_results = [], trace = []\<rparr>"
  let ?v = "snd (upload_ping (snd (serial_Serial ?w)))"
  have a: "open_result ?w = Ret ()" by simp
  have b: "upload_ping (snd (serial_Serial ?w)) = (Inr (), ?v)"
    by (simp add: upload_ping_def serial_Serial_def uart_read_all_def next_read_all_def
          endswith_def PING_def)
  have c: "upload_chunks [] 1 (length ([] :: bytes list)) ?v = (Inr (), ?v)" by simp
  have d: "next_write ?v = Ret ()" "next_read ?v = Ret NAK"
    by (simp_all add: upload_ping_def serial_Serial_def uart_read_all_def next_read_all_def
          next_read_def next_write_def endswith_def PING_def)
  note t = upload_eot_final_ack[OF a b c d]
  show ?thesis using t[THEN conjunct2, THEN conjunct1] by (simp add: NAK_def ACK_def)
qed

text \<open>
  The reply to the end of transmission is 0x06 and a byte is pending behind it: the
  session completes, and the pending byte is still unread.
\<close>

theorem upload_eot_pending_counterexample:
  "fst (upload_data []
          \<lparr>open_result = Ret (), read_results = [Ret ACK],
           read_all_results = [Ret (Some PING), Ret (Some [0x55])],
           write_results = [], trace = []\<rparr>) = Inr () \<and>
   next_read_all (snd (upload_data []
          \<lparr>open_result = Ret (), read_results = [Ret ACK],
           read_all_results = [Ret (Some PING), Ret (Some [0x55])],
           write_results = [], trace = []\<rparr>)) = Ret (Some [0x55])"
  by (simp add: upload_data_def serial_Serial_def upload_ping_def upload_eot_def
        uart_read_all_def uart_read_def uart_write_def print_def
        next_read_all_def next_read_def next_write_def endswith_def PING_def)

lemma upload_chunks_trace:
  "\<exists>es. trace (snd (upload_chunks xs index n w)) = trace w @ es \<and>
        Open \<notin> set es"
proof (induction xs arbitrary: index w)
  case Nil
  then show ?case by simp
next
  case (Cons x xs)
  obtain es where es: "trace (snd (upload_chunks xs (Suc index) n
        (snd (uart_read_all (snd (uart_read (snd (uart_write x (print (PrintSending index n) w))))))))) =
        trace (snd (uart_read_all (snd (uart_read (snd (uart_write x (print (PrintSending index n) w)))))))
        @ es" "Open \<notin> set es"
    using Cons.IH by blast
  show ?case
    unfolding upload_chunks_Cons Let_def
    by (simp add: es print_simps uart_write_simps uart_read_simps uart_read_all_simps
          split: reply.splits)
qed

lemma upload_chunks_head_trace:
  "\<exists>rest. trace (snd (upload_chunks (c # post) index n w)) =
           trace w @ PrintSending index n # Write c # rest"
proof -
  obtain es where es: "trace (snd (upload_chunks post (Suc index) n
        (snd (uart_read_all (snd (uart_read (snd (uart_write c (print (PrintSending index n) w))))))))) =
        trace (snd (uart_read_all (snd (uart_read (snd (uart_write c (print (PrintSending index n) w)))))))
        @ es"
    using upload_chunks_trace by blast
  show ?thesis
    unfolding upload_chunks_Cons Let_def
    by (simp add: es print_simps uart_write_simps uart_read_simps uart_read_all_simps
          split: reply.splits)
qed

text \<open>
  Claim C8, as the code has it. The progress line of a frame (its position, counted
  from 1, out of the number of frames) is printed when the frame's turn comes, right
  before the frame is written and so before its acknowledgement is read: whatever the
  port then answers, the trace continues from the acknowledgement of the frames before
  with the progress line and the write of the frame.
\<close>

theorem upload_chunks_progress_before_write:
  assumes "upload_chunks pre index n w = (Inr (), w1)"
  shows "\<exists>rest. trace (snd (upload_chunks (pre @ c # post) index n w)) =
           trace w1 @ PrintSending (index + length pre) n # Write c # rest"
proof -
  have "upload_chunks (pre @ c # post) index n w = upload_chunks (c # post) (index + length pre) n w1"
    by (simp only: upload_chunks_append[of pre "c # post"] assms prod.case sum.case)
  then show ?thesis
    using upload_chunks_head_trace[of c post "index + length pre" n w1] by simp
qed

theorem upload_chunks_progress_before_write_witness:
  "\<exists>rest. trace (snd (upload_chunks [[0x01, 0x01, 0xFE], [0x01, 0x02, 0xFD]] 1 2
             \<lparr>open_result = Ret (), read_results = [Ret ACK, Ret NAK],
              read_all_results = [], write_results = [], trace = []\<rparr>)) =
     [PrintSending 1 2, Write [0x01, 0x01, 0xFE], Read, ReadAll,
      PrintSending 2 2, Write [0x01, 0x02, 0xFD]] @ rest"
proof -
  let ?w = "\<lparr>open_result = Ret (), read_results = [Ret ACK, Ret NAK],
              read_all_results = [], write_results = [], trace = []\<rparr>"
  let ?v = "snd (upload_chunks [[0x01, 0x01, 0xFE]] 1 2 ?w)"
  have a: "upload_chunks [[0x01, 0x01, 0xFE]] 1 2 ?w = (Inr (), ?v)"
    by (simp add: uart_write_def uart_read_def uart_read_all_def print_def
          next_read_def next_read_all_def next_write_def)
  have t: "trace ?v = [PrintSending 1 2, Write [0x01, 0x01, 0xFE], Read, ReadAll]"
    by (simp add: uart_write_def uart_read_def uart_read_all_def print_def
          next_read_def next_read_all_def next_write_def)
  from upload_chunks_progress_before_write[OF a, of "[0x01, 0x02, 0xFD]" "[]", unfolded t]
  obtain rest where
    "trace (snd (upload_chunks ([[0x01, 0x01, 0xFE]] @ [[0x01, 0x02, 0xFD]]) 1 2 ?w)) =
       [PrintSending 1 2, Write [0x01, 0x01, 0xFE], Read, ReadAll] @
       PrintSending (1 + length [[0x01, 0x01, 0xFE :: byte]]) 2 # Write [0x01, 0x02, 0xFD] # rest"
    by (elim exE)
  then show ?thesis by (intro exI[of _ rest]) simp
qed

text \<open>
  The reply to the only frame is 0x15: the session fails, and the progress line of the
  frame was printed all the same, before the frame was written.
\<close>

theorem upload_data_progress_counterexample:
  "fst (upload_data [[0x01, 0x01, 0xFE]]
          \<lparr>open_result = Ret (), read_results = [Ret NAK],
           read_all_results = [Ret (Some PING)], write_results = [], trace = []\<rparr>)
     = Inl OSError_NoAck \<and>
   trace (snd (upload_data [[0x01, 0x01, 0xFE]]
          \<lparr>open_result = Ret (), read_results = [Ret NAK],
           read_all_results = [Ret (Some PING)], write_results = [], trace = []\<rparr>))
     = [Open, ReadAll, PrintSending 1 1, Write [0x01, 0x01, 0xFE], Read, ReadAll,
        PrintResponse NAK]"
  by (simp add: upload_data_def serial_Serial_def upload_ping_def
        uart_read_all_def uart_read_def uart_write_def print_def
        next_read_all_def next_read_def next_write_def endswith_def PING_def NAK_def ACK_def)

lemma upload_ping_trace:
  "\<exists>es. trace (snd (upload_ping w)) = trace w @ es \<and> Open \<notin> set es"
  by (simp add: upload_ping_def uart_read_all_def uart_read_def
      split: reply.splits option.splits prod.splits)

lemma upload_eot_trace:
  "\<exists>es. trace (snd (upload_eot w)) = trace w @ es \<and> Open \<notin> set es"
  by (simp add: upload_eot_def uart_write_def uart_read_def print_def
      split: reply.splits prod.splits)

text \<open>
  The port as a resource, as far as \<^verbatim>\<open>upload_data\<close> itself goes: in every session,
  whatever the port does (faults included) and however the session ends, the port is
  opened exactly once, as the first thing the session does. The function has no call of
  \<^verbatim>\<open>close\<close>, no \<^verbatim>\<open>with\<close> block and no \<^verbatim>\<open>finally\<close>: whether and when the port is
  closed is decided by the Python runtime, which finalises the port object once nothing
  refers to it, and is not an effect of any statement modelled here.
\<close>

lemma upload_data_opens_once:
  "\<exists>es. trace (snd (upload_data chunks w)) = trace w @ Open # es \<and>
        Open \<notin> set es"
proof (cases "open_result w")
  case Fault
  then show ?thesis by (simp add: upload_data_def serial_Serial_def)
next
  case (Ret u)
  let ?w = "snd (serial_Serial w)"
  have s: "serial_Serial w = (Ret (), ?w)" using Ret by (simp add: serial_Serial_def)
  have tw: "trace ?w = trace w @ [Open]" by (simp add: serial_Serial_simps)
  obtain r0 v0 where p: "upload_ping ?w = (r0, v0)" by (cases "upload_ping ?w")
  obtain e0 where e0: "trace v0 = trace ?w @ e0" "Open \<notin> set e0"
    using upload_ping_trace[of ?w] p by auto
  show ?thesis
  proof (cases r0)
    case (Inl e)
    then have "upload_data chunks w = (Inl e, v0)"
      unfolding upload_data_def by (subst s) (simp add: p)
    then show ?thesis using e0 tw by simp
  next
    case r0: (Inr u0)
    obtain r1 v1 where c: "upload_chunks chunks (Suc 0) (length chunks) v0 = (r1, v1)"
      by (cases "upload_chunks chunks (Suc 0) (length chunks) v0")
    obtain e1 where e1: "trace v1 = trace v0 @ e1" "Open \<notin> set e1"
      using upload_chunks_trace[of chunks "Suc 0" "length chunks" v0] c by auto
    show ?thesis
    proof (cases r1)
      case (Inl e)
      then have "upload_data chunks w = (Inl e, v1)"
        unfolding upload_data_def by (subst s) (simp add: p r0 c)
      then show ?thesis using e0 e1 tw by simp
    next
      case (Inr u1)
      then have u: "upload_data chunks w = upload_eot v1"
        unfolding upload_data_def by (subst s) (simp add: p r0 c)
      obtain e2 where e2: "trace (snd (upload_eot v1)) = trace v1 @ e2"
          "Open \<notin> set e2"
        using upload_eot_trace[of v1] by auto
      show ?thesis using e0 e1 e2 tw u by simp
    qed
  qed
qed

section \<open>The program's header and the empty file\<close>

lemma pack_L_unpack:
  assumes "pack_L x = Inr bs"
  shows "length bs = 4 \<and> unpack_be bs = x"
proof -
  have r: "0 \<le> x" "x \<le> 0xFFFFFFFF"
    and bs: "bs = [word_of_int (drop_bit 24 x), word_of_int (drop_bit 16 x),
                   word_of_int (drop_bit 8 x), word_of_int x]"
    using assms by (auto simp: pack_L_def split: if_splits)
  define a where "a = drop_bit 24 x"
  define b where "b = take_bit 8 (drop_bit 16 x)"
  define c where "c = take_bit 8 (drop_bit 8 x)"
  define d where "d = take_bit 8 x"
  have d1: "x = drop_bit 8 x * 256 + d"
    using bits_ident[of 8 x] by (simp add: push_bit_eq_mult d_def)
  have d2: "drop_bit 8 x = drop_bit 16 x * 256 + c"
    using bits_ident[of 8 "drop_bit 8 x"] by (simp add: push_bit_eq_mult c_def)
  have d3: "drop_bit 16 x = a * 256 + b"
    using bits_ident[of 8 "drop_bit 16 x"] by (simp add: push_bit_eq_mult a_def b_def)
  have "0 \<le> a" "a < 2 ^ 8"
    using r by (simp_all add: a_def drop_bit_eq_div)
  then have d4: "take_bit 8 a = a" by (simp add: take_bit_int_eq_self)
  have "unpack_be bs = ((take_bit 8 a * 256 + b) * 256 + c) * 256 + d"
    by (simp add: bs unpack_be_def uint_word_of_int_eq a_def b_def c_def d_def)
  also have "\<dots> = x"
    unfolding d4 using d1 d2 d3 by simp
  finally show ?thesis by (simp add: bs)
qed

lemma struct_pack_LLL_unpack:
  assumes "struct_pack_LLL a b c = Inr h"
  shows "length h = 12 \<and> unpack_be (take 4 h) = a \<and>
         unpack_be (take 4 (drop 4 h)) = b \<and> unpack_be (drop 8 h) = c"
proof -
  obtain x y z where p: "pack_L a = Inr x" "pack_L b = Inr y" "pack_L c = Inr z"
      and h: "h = x @ y @ z"
    using assms by (auto simp: struct_pack_LLL_def split: sum.splits)
  note u = pack_L_unpack[OF p(1)] pack_L_unpack[OF p(2)] pack_L_unpack[OF p(3)]
  show ?thesis using u by (simp add: h)
qed

text \<open>
  Claim C10. Whenever the creator that \<^verbatim>\<open>main\<close> builds has a header, a flash offset
  was given on the command line and the header has exactly 12 bytes: big-endian, the
  offset as given, then the number of bytes of the file, which is the whole payload the
  creator sends, then the flags, which are 1 when \<^verbatim>\<open>--no-verify\<close> was given and 0
  otherwise (bit 0 alone, every other bit zero).
\<close>

theorem main_header_fields:
  assumes "main_transfer_data_creator args = Inr creator"
      and "header creator = Some h"
  shows "length h = 12 \<and>
         flash_offset args = Some (unpack_be (take 4 h)) \<and>
         unpack_be (take 4 (drop 4 h)) = int (length (file_contents args)) \<and>
         unpack_be (take 4 (drop 4 h)) = int (length (data creator)) \<and>
         data creator = file_contents args \<and>
         unpack_be (drop 8 h) = (if no_verify args then 1 else 0) \<and>
         bit (unpack_be (drop 8 h)) 0 = no_verify args \<and>
         (\<forall>n>0. \<not> bit (unpack_be (drop 8 h)) n)"
proof -
  let ?c = "TransferDataCreator_init (file_contents args) 0x1021"
  let ?flags = "if no_verify args then 0x0 OR NO_VERIFICATION else (0x0 :: int)"
  have fl: "?flags = (if no_verify args then 1 else 0)"
    by (simp add: NO_VERIFICATION_def)
  obtain off where off: "flash_offset args = Some off"
    using assms
    by (cases "flash_offset args")
       (auto simp: main_transfer_data_creator_def Let_def TransferDataCreator_init_def
             split: if_splits)
  have ah: "add_header ?c off (int (length (file_contents args))) ?flags = Inr creator"
    using assms(1) off
    by (simp add: main_transfer_data_creator_def Let_def split: if_splits)
  then obtain hh where hh: "struct_pack_LLL off (int (length (file_contents args))) ?flags = Inr hh"
      and cr: "creator = ?c\<lparr>header := Some hh\<rparr>"
    by (auto simp: add_header_def split: sum.splits)
  have "hh = h" using assms(2) cr by simp
  note u = struct_pack_LLL_unpack[OF hh, unfolded \<open>hh = h\<close> fl]
  have dc: "data creator = file_contents args"
    by (simp add: cr TransferDataCreator_init_def)
  have f: "unpack_be (drop 8 h) = (if no_verify args then 1 else 0)"
    using u by simp
  have b0: "bit (unpack_be (drop 8 h)) 0 = no_verify args"
    by (simp add: f)
  have bn: "\<forall>n>0. \<not> bit (unpack_be (drop 8 h)) n"
    by (simp add: f bit_1_iff)
  show ?thesis using u off dc f b0 bn by simp
qed

theorem main_header_fields_witness:
  "main_transfer_data_creator
      \<lparr>file_contents = [0x41, 0x42], flash_offset = Some 0x1000, no_verify = True\<rparr>
   = Inr \<lparr>polynomial = 0x1021, data = [0x41, 0x42],
          header = Some [0x00, 0x00, 0x10, 0x00, 0x00, 0x00, 0x00, 0x02, 0x00, 0x00, 0x00, 0x01]\<rparr> \<and>
   unpack_be [0x00, 0x00, 0x10, 0x00] = 0x1000 \<and>
   unpack_be [0x00, 0x00, 0x00, 0x02] = 2 \<and>
   unpack_be [0x00, 0x00, 0x00, 0x01] = 1"
proof -
  let ?args = "\<lparr>file_contents = [0x41, 0x42], flash_offset = Some 0x1000, no_verify = True\<rparr>"
  let ?h = "[0x00, 0x00, 0x10, 0x00, 0x00, 0x00, 0x00, 0x02, 0x00, 0x00, 0x00, 0x01] :: bytes"
  let ?creator = "\<lparr>polynomial = 0x1021, data = [0x41, 0x42], header = Some ?h\<rparr>"
  have a: "main_transfer_data_creator ?args = Inr ?creator"
    by (simp add: main_transfer_data_creator_def Let_def TransferDataCreator_init_def
          add_header_def struct_pack_LLL_def pack_L_def NO_VERIFICATION_def drop_bit_eq_div)
  have b: "header ?creator = Some ?h" by simp
  note t = main_header_fields[OF a b]
  show ?thesis
    using a t[THEN conjunct2, THEN conjunct1] t[THEN conjunct2, THEN conjunct2, THEN conjunct1]
          t[THEN conjunct2, THEN conjunct2, THEN conjunct2, THEN conjunct2, THEN conjunct2,
            THEN conjunct1]
    by simp
qed

lemma get_transfer_chunks_empty: "get_transfer_chunks (TransferDataCreator_init [] p) = Inr []"
  by (simp add: get_transfer_chunks_unfold TransferDataCreator_init_def)

lemma main_empty_file:
  "file_contents args = [] \<Longrightarrow> main args w = (Inl OSError_EmptyFile, print PrintWarning w)"
  by (simp add: main_def main_chunks_def main_transfer_data_creator_def Let_def)

text \<open>
  Claim C5, as the code has it. The program does treat an empty file as an error:
  \<^verbatim>\<open>main\<close> raises the exception of line 239 after its warning, before any plan is
  built and without opening the port. Below \<^verbatim>\<open>main\<close> an empty payload is no error: the
  planner gives the empty plan for an empty payload without header, and the session on
  the empty plan does the handshake, writes the end of transmission at once and
  completes when 0x06 is received.
\<close>

theorem empty_payload:
  assumes "open_result w = Ret ()"
      and "upload_ping (snd (serial_Serial w)) = (Inr (), w0)"
      and "next_write w0 = Ret ()"
      and "next_read w0 = Ret ACK"
  shows "(file_contents args = [] \<longrightarrow>
            main args w = (Inl OSError_EmptyFile, print PrintWarning w)) \<and>
         get_transfer_chunks (TransferDataCreator_init [] p) = Inr [] \<and>
         fst (upload_data [] w) = Inr () \<and>
         trace (snd (upload_data [] w)) = trace w0 @ [Write EOT, Read, PrintFinished]"
proof -
  have "upload_data [] w = upload_eot w0"
    by (simp add: upload_data_unfold[OF assms(1,2)])
  then have "fst (upload_data [] w) = Inr () \<and>
         trace (snd (upload_data [] w)) = trace w0 @ [Write EOT, Read, PrintFinished]"
    by (simp add: upload_eot_result[OF assms(3,4)] print_simps uart_write_simps uart_read_simps)
  then show ?thesis
    using main_empty_file[of args w] get_transfer_chunks_empty[of p] by blast
qed

theorem empty_payload_witness:
  "fst (upload_data []
          \<lparr>open_result = Ret (), read_results = [Ret PING, Ret ACK],
           read_all_results = [Ret None], write_results = [], trace = []\<rparr>) = Inr () \<and>
   trace (snd (upload_data []
          \<lparr>open_result = Ret (), read_results = [Ret PING, Ret ACK],
           read_all_results = [Ret None], write_results = [], trace = []\<rparr>))
     = [Open, ReadAll, Read, Write EOT, Read, PrintFinished]"
proof -
  let ?w = "\<lparr>open_result = Ret (), read_results = [Ret PING, Ret ACK],
           read_all_results = [Ret None], write_results = [], trace = []\<rparr>"
  let ?v = "snd (upload_ping (snd (serial_Serial ?w)))"
  have a: "open_result ?w = Ret ()" by simp
  have b: "upload_ping (snd (serial_Serial ?w)) = (Inr (), ?v)"
    by (simp add: upload_ping_def serial_Serial_def uart_read_all_def uart_read_def
          next_read_all_def next_read_def endswith_def PING_def)
  have c: "next_write ?v = Ret ()" "next_read ?v = Ret ACK"
    by (simp_all add: upload_ping_def serial_Serial_def uart_read_all_def uart_read_def
          next_read_all_def next_read_def next_write_def endswith_def PING_def)
  have t: "trace ?v = [Open, ReadAll, Read]"
    by (simp add: upload_ping_def serial_Serial_def uart_read_all_def uart_read_def
          next_read_all_def next_read_def endswith_def PING_def)
  note e = empty_payload[OF a b c, unfolded t]
  show ?thesis
    using e[THEN conjunct2, THEN conjunct2] by simp
qed

text \<open>
  An empty file, a port that would answer the ping and acknowledge: \<^verbatim>\<open>main\<close> fails
  with the exception of line 239 and the port is not opened.
\<close>

theorem main_empty_file_counterexample:
  "main \<lparr>file_contents = [], flash_offset = None, no_verify = False\<rparr>
        \<lparr>open_result = Ret (), read_results = [Ret ACK],
         read_all_results = [Ret (Some PING)], write_results = [], trace = []\<rparr>
   = (Inl OSError_EmptyFile,
      \<lparr>open_result = Ret (), read_results = [Ret ACK],
       read_all_results = [Ret (Some PING)], write_results = [], trace = [PrintWarning]\<rparr>)"
  by (simp add: main_def main_chunks_def main_transfer_data_creator_def Let_def print_def)

end
